theory Spec2Isabelle
  imports Complex_Main "HOL-Library.Sublist" "HOL-Library.Multiset" "HOL-Library.AList"
begin

chapter \<open>The program\<close>

text \<open>
  The data-derivation functions of the application (\<^verbatim>\<open>dataUtils\<close> and the
  aggregations of the pages) as functions of HOL. Each definition is preceded by the
  source it renders. The properties follow in the second part.
\<close>

section \<open>Data model\<close>

text \<open>
  A JavaScript string is a sequence of UTF-16 code units; a code unit is modelled by its
  numeric value. \<open>str\<close> turns an ASCII literal into such a sequence, so that the string
  constants of the source can be written as they appear there.
\<close>

type_synonym jsstring = "nat list"

definition str :: "string \<Rightarrow> jsstring" where
  "str s = map of_char s"

text \<open>
  A JavaScript number. A finite value is a real number (the doubles are a subset of the
  reals, and the sign of zero is not modelled); the three non-finite values are kept,
  because the range scan starts from them and a division by zero or an overflow
  produces them. The exact operations \<open>num_sub\<close>, \<open>num_mul\<close> and \<open>num_div\<close> below
  compute without rounding error; where a result depends on how the machine rounds, the
  operations \<open>rsub\<close>, \<open>rmul\<close> and \<open>rdiv\<close> take the rounding as a parameter.
\<close>

datatype number = Num real | PosInf | NegInf | NaN

text \<open>The comparison \<^verbatim>\<open>a < b\<close> on numbers; every comparison with NaN is false.\<close>

fun num_lt :: "number \<Rightarrow> number \<Rightarrow> bool" where
  "num_lt NaN _ = False"
| "num_lt _ NaN = False"
| "num_lt (Num a) (Num b) = (a < b)"
| "num_lt NegInf NegInf = False"
| "num_lt NegInf _ = True"
| "num_lt _ NegInf = False"
| "num_lt PosInf _ = False"
| "num_lt _ PosInf = True"

text \<open>
  \<^verbatim>\<open>interface GasConsumptionRecord { municipality: string; year: number; gas_consumption: number }\<close>
  The records come from a JSON document: the year is an integer and the consumption a
  finite number. Of \<^verbatim>\<open>GasConsumptionData\<close> only the field \<^verbatim>\<open>data\<close> is read by the
  functions below; the metadata is descriptive.
\<close>

record GasConsumptionRecord =
  municipality :: jsstring
  year :: int
  gas_consumption :: real

record GasConsumptionData =
  data :: "GasConsumptionRecord list"

text \<open>The example dataset of the specification: A and B in 2020, A again in 2021.\<close>

definition exampleData :: GasConsumptionData where
  "exampleData = \<lparr>data =
     [\<lparr>municipality = str ''A'', year = 2020, gas_consumption = 1000\<rparr>,
      \<lparr>municipality = str ''B'', year = 2020, gas_consumption = 2000\<rparr>,
      \<lparr>municipality = str ''A'', year = 2021, gas_consumption = 1100\<rparr>]\<rparr>"

section \<open>slugify\<close>

text \<open>
  \<^verbatim>\<open>
  export function slugify(name: string): string {
    return name
      .toLowerCase()
      .replace(/['']/g, "")
      .replace(/[^a-z0-9]+/g, "-")
      .replace(/^-|-$/g, "");
  }
  \<close>
  The three regular-expression replacements are written out as list functions.
  \<^verbatim>\<open>toLowerCase\<close> is the host's Unicode lower-casing, which is not part of
  the repository: \<open>slugify\<close> takes it as a parameter, and the theorems say which
  property of it they need. \<open>asciiToLowerCase\<close> is its restriction to ASCII input and
  serves to run examples.
\<close>

definition hyphen :: nat where
  "hyphen = of_char CHR ''-''"

definition apostrophe :: nat where
  "apostrophe = of_char (CHR 0x27)"

definition is_lower_alnum :: "nat \<Rightarrow> bool" where
  "is_lower_alnum c \<longleftrightarrow>
     (of_char CHR ''a'' \<le> c \<and> c \<le> of_char CHR ''z'') \<or>
     (of_char CHR ''0'' \<le> c \<and> c \<le> of_char CHR ''9'')"

text \<open>
  \<^verbatim>\<open>.replace(/['']/g, "")\<close>: the character class holds the apostrophe (twice);
  every apostrophe is deleted.
\<close>

definition removeApostrophes :: "jsstring \<Rightarrow> jsstring" where
  "removeApostrophes s = filter (\<lambda>c. c \<noteq> apostrophe) s"

text \<open>
  \<^verbatim>\<open>.replace(/[^a-z0-9]+/g, "-")\<close>: every maximal run of code units outside
  \<open>a-z\<close>, \<open>0-9\<close> becomes one hyphen.
\<close>

function replaceNonAlnumRuns :: "jsstring \<Rightarrow> jsstring" where
  "replaceNonAlnumRuns [] = []"
| "replaceNonAlnumRuns (c # cs) =
     (if is_lower_alnum c then c # replaceNonAlnumRuns cs
      else hyphen # replaceNonAlnumRuns (dropWhile (\<lambda>x. \<not> is_lower_alnum x) cs))"
  by pat_completeness auto

termination
  by (relation "measure length") (auto simp: less_Suc_eq_le length_dropWhile_le)

text \<open>
  \<^verbatim>\<open>.replace(/^-|-$/g, "")\<close>: a hyphen at the very start is deleted, and a hyphen
  at the very end of what remains.
\<close>

definition stripLeadingHyphen :: "jsstring \<Rightarrow> jsstring" where
  "stripLeadingHyphen s = (case s of [] \<Rightarrow> [] | c # cs \<Rightarrow> if c = hyphen then cs else s)"

definition stripTrailingHyphen :: "jsstring \<Rightarrow> jsstring" where
  "stripTrailingHyphen s = (if s \<noteq> [] \<and> last s = hyphen then butlast s else s)"

definition stripEdgeHyphens :: "jsstring \<Rightarrow> jsstring" where
  "stripEdgeHyphens s = stripTrailingHyphen (stripLeadingHyphen s)"

definition slugify :: "(jsstring \<Rightarrow> jsstring) \<Rightarrow> jsstring \<Rightarrow> jsstring" where
  "slugify toLowerCase name =
     stripEdgeHyphens (replaceNonAlnumRuns (removeApostrophes (toLowerCase name)))"

definition asciiToLowerCase :: "jsstring \<Rightarrow> jsstring" where
  "asciiToLowerCase s =
     map (\<lambda>c. if of_char CHR ''A'' \<le> c \<and> c \<le> of_char CHR ''Z'' then c + 32 else c) s"

subsection \<open>The shape of a slug\<close>

text \<open>
  A slug consists of the code units \<open>a-z\<close>, \<open>0-9\<close> and the hyphen, every hyphen is
  followed by a letter or digit (\<open>runs_ok\<close>), and it neither starts nor ends with a
  hyphen.
\<close>

definition is_slug_char :: "nat \<Rightarrow> bool" where
  "is_slug_char c \<longleftrightarrow> is_lower_alnum c \<or> c = hyphen"

fun runs_ok :: "jsstring \<Rightarrow> bool" where
  "runs_ok [] = True"
| "runs_ok [c] = is_slug_char c"
| "runs_ok (c # d # cs) =
     (is_slug_char c \<and> (c = hyphen \<longrightarrow> is_lower_alnum d) \<and> runs_ok (d # cs))"

definition slugForm :: "jsstring \<Rightarrow> bool" where
  "slugForm s \<longleftrightarrow> runs_ok s \<and> (s \<noteq> [] \<longrightarrow> hd s \<noteq> hyphen \<and> last s \<noteq> hyphen)"

section \<open>findMunicipalityBySlug\<close>

text \<open>
  \<^verbatim>\<open>
  const municipalities = new Set(data.data.map((r) => r.municipality));
  for (const name of municipalities) {
    if (slugify(name) === slug) { return name; }
  }
  return null;
  \<close>
  A \<^verbatim>\<open>Set\<close> is iterated in insertion order, and adding an element that is already
  present changes nothing: the set is the list of its elements in the order of their
  first insertion. The result \<^verbatim>\<open>null\<close> is \<open>None\<close>.
\<close>

definition setAdd :: "'a list \<Rightarrow> 'a \<Rightarrow> 'a list" where
  "setAdd s x = (if x \<in> set s then s else s @ [x])"

definition newSet :: "'a list \<Rightarrow> 'a list" where
  "newSet xs = foldl setAdd [] xs"

definition findMunicipalityBySlug ::
    "(jsstring \<Rightarrow> jsstring) \<Rightarrow> GasConsumptionData \<Rightarrow> jsstring \<Rightarrow> jsstring option" where
  "findMunicipalityBySlug toLowerCase d slug =
     List.find (\<lambda>name. slugify toLowerCase name = slug) (newSet (map municipality (data d)))"

section \<open>normalizeMunicipalityName\<close>

text \<open>
  \<^verbatim>\<open>
  export function normalizeMunicipalityName(name: string): string {
    return name
      .replace(" (gemeente)", "")
      .replace(" (Utrecht)", "")
      ...
      .replace(" (Overijssel)", "")
      .trim();
  }
  \<close>
  \<^verbatim>\<open>replace\<close> with a string pattern removes the first occurrence of the pattern
  only. The eleven calls are a left fold over the patterns in the order of the source.
  The sixth pattern is written in the source file with the two code units U+221A and
  U+00A2 between \<open>Frysl\<close> and \<open>n\<close>.
\<close>

fun replaceFirst :: "jsstring \<Rightarrow> jsstring \<Rightarrow> jsstring" where
  "replaceFirst pat [] = []"
| "replaceFirst pat (c # cs) =
     (if prefix pat (c # cs) then drop (length pat) (c # cs) else c # replaceFirst pat cs)"

text \<open>
  \<^verbatim>\<open>trim\<close> removes the white space and line terminators of ECMAScript from both
  ends of the string.
\<close>

definition isWhiteSpace :: "nat \<Rightarrow> bool" where
  "isWhiteSpace c \<longleftrightarrow>
     c \<in> {0x9, 0xA, 0xB, 0xC, 0xD, 0x20, 0xA0, 0x1680, 0x2028, 0x2029, 0x202F, 0x205F,
          0x3000, 0xFEFF} \<or> (0x2000 \<le> c \<and> c \<le> 0x200A)"

definition trim :: "jsstring \<Rightarrow> jsstring" where
  "trim s = rev (dropWhile isWhiteSpace (rev (dropWhile isWhiteSpace s)))"

definition suffixes :: "jsstring list" where
  "suffixes =
     [str '' (gemeente)'',
      str '' (Utrecht)'',
      str '' (Groningen)'',
      str '' (Limburg)'',
      str '' (Friesland)'',
      str '' (Frysl'' @ [0x221A, 0xA2] @ str ''n)'',
      str '' (Noord-Brabant)'',
      str '' (Gelderland)'',
      str '' (Noord-Holland)'',
      str '' (Zuid-Holland)'',
      str '' (Overijssel)'']"

definition stripSuffixes :: "jsstring list \<Rightarrow> jsstring \<Rightarrow> jsstring" where
  "stripSuffixes pats name = foldl (\<lambda>s pat. replaceFirst pat s) name pats"

definition normalizeMunicipalityName :: "jsstring \<Rightarrow> jsstring" where
  "normalizeMunicipalityName name = trim (stripSuffixes suffixes name)"

text \<open>
  Every pattern contains an opening parenthesis, the code unit \<open>lparen\<close>.
\<close>

definition lparen :: nat where
  "lparen = of_char CHR ''(''"

section \<open>getConsumptionByYear\<close>

text \<open>
  \<^verbatim>\<open>
  const result: ConsumptionByMunicipality = {};
  for (const record of data.data) {
    if (record.year === year) {
      const normalizedName = normalizeMunicipalityName(record.municipality);
      result[normalizedName] = record.gas_consumption;
    }
  }
  return result;
  \<close>
  The object \<^verbatim>\<open>result\<close> is used as a dictionary from names to numbers. It is modelled
  as the finite map of its own properties, an assignment being a map update; keys are
  ordinary names (the property name \<^verbatim>\<open>__proto__\<close>, which JavaScript treats
  specially on assignment, is outside this model).
\<close>

type_synonym ConsumptionByMunicipality = "jsstring \<rightharpoonup> real"

definition byYear_step ::
    "int \<Rightarrow> ConsumptionByMunicipality \<Rightarrow> GasConsumptionRecord \<Rightarrow> ConsumptionByMunicipality" where
  "byYear_step y result record =
     (if year record = y
      then result(normalizeMunicipalityName (municipality record) \<mapsto> gas_consumption record)
      else result)"

definition getConsumptionByYear :: "GasConsumptionData \<Rightarrow> int \<Rightarrow> ConsumptionByMunicipality" where
  "getConsumptionByYear d y = foldl (byYear_step y) Map.empty (data d)"

text \<open>A record contributes to the entry of \<open>n\<close> when it is of the queried year and its
  name normalizes to \<open>n\<close>.\<close>

definition contributes :: "int \<Rightarrow> jsstring \<Rightarrow> GasConsumptionRecord \<Rightarrow> bool" where
  "contributes y n record \<longleftrightarrow>
     year record = y \<and> normalizeMunicipalityName (municipality record) = n"

text \<open>Two records of one year whose names normalize to the same name.\<close>

definition collidingData :: GasConsumptionData where
  "collidingData = \<lparr>data =
     [\<lparr>municipality = str ''A'', year = 2020, gas_consumption = 1000\<rparr>,
      \<lparr>municipality = str ''A (gemeente)'', year = 2020, gas_consumption = 2000\<rparr>]\<rparr>"

section \<open>getConsumptionRange\<close>

text \<open>
  \<^verbatim>\<open>
  let min = Infinity; let max = -Infinity;
  for (const record of data.data) {
    if (record.gas_consumption < min) min = record.gas_consumption;
    if (record.gas_consumption > max) max = record.gas_consumption;
  }
  return { min, max };
  \<close>
  The loop is a left fold over the records; \<open>range_step\<close> is its body. The fields
  \<open>min_val\<close> and \<open>max_val\<close> are \<^verbatim>\<open>min\<close> and \<^verbatim>\<open>max\<close> of the result.
\<close>

record ConsumptionRange =
  min_val :: number
  max_val :: number

definition range_step :: "ConsumptionRange \<Rightarrow> GasConsumptionRecord \<Rightarrow> ConsumptionRange" where
  "range_step acc record =
     (let c = Num (gas_consumption record);
          acc1 = (if num_lt c (min_val acc) then acc\<lparr>min_val := c\<rparr> else acc)
      in if num_lt (max_val acc1) c then acc1\<lparr>max_val := c\<rparr> else acc1)"

definition getConsumptionRange :: "GasConsumptionData \<Rightarrow> ConsumptionRange" where
  "getConsumptionRange d =
     foldl range_step \<lparr>min_val = PosInf, max_val = NegInf\<rparr> (data d)"

section \<open>getColorForConsumption\<close>

subsection \<open>Arithmetic on numbers\<close>

text \<open>
  Subtraction, multiplication and division follow IEEE 754 on the non-finite values:
  NaN propagates, \<open>Infinity - Infinity\<close>, \<open>0 * Infinity\<close>, \<open>0 / 0\<close> and
  \<open>Infinity / Infinity\<close> are NaN, and a non-zero number divided by zero is an infinity
  with the sign of the numerator (a zero divisor is taken as \<open>+0\<close>, which is what
  \<^verbatim>\<open>max - min\<close> yields when both are the same finite number).
  \<^verbatim>\<open>Math.round\<close> rounds to the nearest integer, halves upwards, and returns a
  non-finite argument unchanged.
\<close>

fun num_sub :: "number \<Rightarrow> number \<Rightarrow> number" where
  "num_sub NaN _ = NaN"
| "num_sub _ NaN = NaN"
| "num_sub (Num a) (Num b) = Num (a - b)"
| "num_sub PosInf PosInf = NaN"
| "num_sub NegInf NegInf = NaN"
| "num_sub PosInf _ = PosInf"
| "num_sub NegInf _ = NegInf"
| "num_sub (Num a) PosInf = NegInf"
| "num_sub (Num a) NegInf = PosInf"

fun num_neg :: "number \<Rightarrow> number" where
  "num_neg (Num a) = Num (- a)"
| "num_neg PosInf = NegInf"
| "num_neg NegInf = PosInf"
| "num_neg NaN = NaN"

fun num_mul :: "number \<Rightarrow> number \<Rightarrow> number" where
  "num_mul NaN _ = NaN"
| "num_mul _ NaN = NaN"
| "num_mul (Num a) (Num b) = Num (a * b)"
| "num_mul (Num a) i = (if a = 0 then NaN else if 0 < a then i else num_neg i)"
| "num_mul i (Num b) = (if b = 0 then NaN else if 0 < b then i else num_neg i)"
| "num_mul PosInf i = i"
| "num_mul NegInf i = num_neg i"

fun num_div :: "number \<Rightarrow> number \<Rightarrow> number" where
  "num_div NaN _ = NaN"
| "num_div _ NaN = NaN"
| "num_div (Num a) (Num b) =
     (if b \<noteq> 0 then Num (a / b)
      else if a = 0 then NaN else if 0 < a then PosInf else NegInf)"
| "num_div (Num a) _ = Num 0"
| "num_div i (Num b) = (if 0 \<le> b then i else num_neg i)"
| "num_div _ _ = NaN"

fun Math_round :: "number \<Rightarrow> number" where
  "Math_round (Num x) = Num (of_int \<lfloor>x + 1 / 2\<rfloor>)"
| "Math_round i = i"

subsection \<open>Rounded arithmetic\<close>

text \<open>
  An arithmetic operation on doubles returns the exact result rounded to a double, or an
  infinity when the exact result is too large. The rounding is a parameter \<open>fl\<close> of the
  operations below, from the exact real result to the number returned; \<open>Num\<close> itself is
  the rounding of exact arithmetic. On a non-finite operand, and for a division by zero,
  the operations are those of the previous subsection. \<^verbatim>\<open>Math.round\<close> returns an
  integer, which is a double whenever its argument is one, and is not rounded.

  \<open>isRounding\<close> states the two properties of the rounding of IEEE 754 doubles that the
  proofs use: it is monotone (in the order \<^verbatim>\<open>a <= b\<close> of numbers, in which every
  comparison with NaN is false, so that a rounding never returns NaN), and an integer
  of magnitude up to \<open>2\<^sup>5\<^sup>3\<close> is a double and is returned unchanged.
\<close>

fun num_le :: "number \<Rightarrow> number \<Rightarrow> bool" where
  "num_le NaN _ = False"
| "num_le _ NaN = False"
| "num_le (Num a) (Num b) = (a \<le> b)"
| "num_le NegInf _ = True"
| "num_le _ PosInf = True"
| "num_le _ _ = False"

type_synonym rounding = "real \<Rightarrow> number"

definition isRounding :: "rounding \<Rightarrow> bool" where
  "isRounding fl \<longleftrightarrow>
     (\<forall>x y. x \<le> y \<longrightarrow> num_le (fl x) (fl y)) \<and>
     (\<forall>k::int. \<bar>k\<bar> \<le> 2 ^ 53 \<longrightarrow> fl (of_int k) = Num (of_int k))"

fun rsub :: "rounding \<Rightarrow> number \<Rightarrow> number \<Rightarrow> number" where
  "rsub fl (Num a) (Num b) = fl (a - b)"
| "rsub fl a b = num_sub a b"


fun rmul :: "rounding \<Rightarrow> number \<Rightarrow> number \<Rightarrow> number" where
  "rmul fl (Num a) (Num b) = fl (a * b)"
| "rmul fl a b = num_mul a b"

fun rdiv :: "rounding \<Rightarrow> number \<Rightarrow> number \<Rightarrow> number" where
  "rdiv fl (Num a) (Num b) = (if b \<noteq> 0 then fl (a / b) else num_div (Num a) (Num b))"
| "rdiv fl a b = num_div a b"

subsection \<open>The colour scale\<close>

text \<open>
  \<^verbatim>\<open>
  if (value === null || value === undefined) { return "#ccc"; }
  const ratio = (value - min) / (max - min);
  const r = Math.round(254 - ratio * (254 - 165));
  const g = Math.round(224 - ratio * (224 - 15));
  const b = Math.round(210 - ratio * (210 - 21));
  return `rgb(${r}, ${g}, ${b})`;
  \<close>
  The parameters \<open>v\<close>, \<open>lo\<close>, \<open>hi\<close> are \<^verbatim>\<open>value\<close>, \<^verbatim>\<open>min\<close> and
  \<^verbatim>\<open>max\<close>. An absent value (\<^verbatim>\<open>null\<close> or \<^verbatim>\<open>undefined\<close>) is \<open>None\<close>. The result is kept
  structured: \<open>Literal\<close> is a string literal of the source, and \<open>Rgb r g b\<close> stands for
  the template string \<^verbatim>\<open>rgb(r, g, b)\<close> with the three numbers it interpolates, so
  that \<open>Rgb NaN NaN NaN\<close> is the string \<^verbatim>\<open>rgb(NaN, NaN, NaN)\<close>.
\<close>

datatype color = Literal string | Rgb number number number

definition getColorForConsumption :: "number option \<Rightarrow> number \<Rightarrow> number \<Rightarrow> color" where
  "getColorForConsumption v lo hi =
     (case v of
        None \<Rightarrow> Literal ''#ccc''
      | Some val \<Rightarrow>
          (let ratio = num_div (num_sub val lo) (num_sub hi lo);
               r = Math_round (num_sub (Num 254) (num_mul ratio (num_sub (Num 254) (Num 165))));
               g = Math_round (num_sub (Num 224) (num_mul ratio (num_sub (Num 224) (Num 15))));
               b = Math_round (num_sub (Num 210) (num_mul ratio (num_sub (Num 210) (Num 21))))
           in Rgb r g b))"

text \<open>
  The definition above evaluates the source in exact arithmetic. With a range of width
  zero nothing is rounded except the difference \<^verbatim>\<open>value - min\<close>, of which only the sign
  matters. With \<open>min < max\<close> the four operations behind a channel are each rounded, and
  the rounded channel can differ by one from the exact one (in doubles the blue channel
  for the value 9 in the range from 0 to 14 is 88, in exact arithmetic 89). The same
  source with the rounding as a parameter:
\<close>

definition getColorForConsumption_rounded ::
    "rounding \<Rightarrow> number option \<Rightarrow> number \<Rightarrow> number \<Rightarrow> color" where
  "getColorForConsumption_rounded fl v lo hi =
     (case v of
        None \<Rightarrow> Literal ''#ccc''
      | Some val \<Rightarrow>
          (let ratio = rdiv fl (rsub fl val lo) (rsub fl hi lo);
               r = Math_round (rsub fl (Num 254) (rmul fl ratio (rsub fl (Num 254) (Num 165))));
               g = Math_round (rsub fl (Num 224) (rmul fl ratio (rsub fl (Num 224) (Num 15))));
               b = Math_round (rsub fl (Num 210) (rmul fl ratio (rsub fl (Num 210) (Num 21))))
           in Rgb r g b))"

section \<open>National averages by year\<close>

text \<open>
  \<^verbatim>\<open>
  function calculateNationalAverages(data: GasConsumptionData): YearlyAverage[] {
    const yearlyTotals: { [year: number]: { sum: number; count: number } } = {};
    for (const record of data.data) {
      if (!yearlyTotals[record.year]) {
        yearlyTotals[record.year] = { sum: 0, count: 0 };
      }
      yearlyTotals[record.year].sum += record.gas_consumption;
      yearlyTotals[record.year].count += 1;
    }
    return Object.entries(yearlyTotals)
      .map(([year, { sum, count }]) => ({
        year: parseInt(year),
        average: Math.round(sum / count),
      }))
      .sort((a, b) => a.year - b.year);
  }
  \<close>
  The object \<^verbatim>\<open>yearlyTotals\<close> is an association list in the order in which its keys
  were created; an assignment to an existing key updates it in place. A key is the year
  itself (the source converts it to a string and back with \<^verbatim>\<open>parseInt\<close>).
  \<^verbatim>\<open>Object.entries\<close> lists the keys that are array indices in ascending order and
  then the others in creation order. \<^verbatim>\<open>Array.prototype.sort\<close> is stable, as is
  \<open>sort_key\<close>.
\<close>

type_synonym yearlyTotals = "(int \<times> (real \<times> nat)) list"

definition totals_step :: "yearlyTotals \<Rightarrow> GasConsumptionRecord \<Rightarrow> yearlyTotals" where
  "totals_step acc record =
     (case map_of acc (year record) of
        None \<Rightarrow> AList.update (year record) (0 + gas_consumption record, 0 + 1) acc
      | Some (s, c) \<Rightarrow> AList.update (year record) (s + gas_consumption record, c + 1) acc)"

definition isArrayIndex :: "int \<Rightarrow> bool" where
  "isArrayIndex k \<longleftrightarrow> 0 \<le> k \<and> k < 2 ^ 32 - 1"

definition Object_entries :: "(int \<times> 'v) list \<Rightarrow> (int \<times> 'v) list" where
  "Object_entries obj =
     sort_key fst (filter (\<lambda>p. isArrayIndex (fst p)) obj) @
     filter (\<lambda>p. \<not> isArrayIndex (fst p)) obj"

record YearlyAverage =
  ya_year :: int
  average :: number

definition calculateNationalAverages :: "GasConsumptionData \<Rightarrow> YearlyAverage list" where
  "calculateNationalAverages d =
     sort_key ya_year
       (map (\<lambda>(y, (s, c)). \<lparr>ya_year = y, average = Math_round (num_div (Num s) (Num (of_nat c)))\<rparr>)
          (Object_entries (foldl totals_step [] (data d))))"

subsection \<open>The same averages on the municipality page\<close>

text \<open>
  The municipality page computes the same averages as a dictionary from the year:
  \<^verbatim>\<open>
  const averages: { [year: number]: number } = {};
  const yearGroups: { [year: number]: number[] } = {};
  for (const record of data.data) {
    if (!yearGroups[record.year]) { yearGroups[record.year] = []; }
    yearGroups[record.year].push(record.gas_consumption);
  }
  for (const [year, values] of Object.entries(yearGroups)) {
    averages[parseInt(year)] = Math.round(values.reduce((a, b) => a + b, 0) / values.length);
  }
  return averages;
  \<close>
\<close>

type_synonym yearGroups = "(int \<times> real list) list"

definition groups_step :: "yearGroups \<Rightarrow> GasConsumptionRecord \<Rightarrow> yearGroups" where
  "groups_step acc record =
     (case map_of acc (year record) of
        None \<Rightarrow> AList.update (year record) ([] @ [gas_consumption record]) acc
      | Some vs \<Rightarrow> AList.update (year record) (vs @ [gas_consumption record]) acc)"

definition roundedMean :: "real list \<Rightarrow> number" where
  "roundedMean vs = Math_round (num_div (Num (foldl (+) 0 vs)) (Num (of_nat (length vs))))"

definition averages_step :: "(int \<rightharpoonup> number) \<Rightarrow> int \<times> real list \<Rightarrow> (int \<rightharpoonup> number)" where
  "averages_step averages p = (case p of (y, vs) \<Rightarrow> averages(y \<mapsto> roundedMean vs))"

definition nationalAverages :: "GasConsumptionData \<Rightarrow> (int \<rightharpoonup> number)" where
  "nationalAverages d =
     foldl averages_step Map.empty (Object_entries (foldl groups_step [] (data d)))"

subsection \<open>The specification: group, average, round, sort\<close>

text \<open>
  In the words of the specification: the records are grouped by year, each group gets the
  arithmetic mean of its consumption values rounded to the nearest integer, and the
  entries are listed by ascending year.
\<close>

definition yearGroup :: "GasConsumptionData \<Rightarrow> int \<Rightarrow> real list" where
  "yearGroup d y = map gas_consumption (filter (\<lambda>r. year r = y) (data d))"

definition mean :: "real list \<Rightarrow> real" where
  "mean xs = sum_list xs / of_nat (length xs)"

definition nationalAveragesSpec :: "GasConsumptionData \<Rightarrow> YearlyAverage list" where
  "nationalAveragesSpec d =
     map (\<lambda>y. \<lparr>ya_year = y, average = Num (of_int \<lfloor>mean (yearGroup d y) + 1 / 2\<rfloor>)\<rparr>)
       (sorted_list_of_set (year ` set (data d)))"

section \<open>Rankings per year\<close>

text \<open>
  \<^verbatim>\<open>
  const rankings: { [year: number]: { [municipality: string]: { rank: number; total: number } } } = {};
  const years = [...new Set(data.data.map((r) => r.year))];
  for (const year of years) {
    const yearData = data.data
      .filter((r) => r.year === year)
      .sort((a, b) => a.gas_consumption - b.gas_consumption);
    rankings[year] = {};
    yearData.forEach((record, index) => {
      const normalizedName = normalizeMunicipalityName(record.municipality);
      rankings[year][normalizedName] = { rank: index + 1, total: yearData.length };
    });
  }
  return rankings;
  \<close>
  (\<^verbatim>\<open>rankingsPerYear\<close> of the municipality page, for a dataset that has been
  loaded.) The sort is stable and ascending in the consumption; \<open>forEach\<close> is a left fold
  over the records paired with their indices. Both objects are used as dictionaries and
  modelled as maps; the field \<open>total_count\<close> is \<^verbatim>\<open>total\<close>.
\<close>

record Ranking =
  rank :: nat
  total_count :: nat

definition yearData :: "GasConsumptionData \<Rightarrow> int \<Rightarrow> GasConsumptionRecord list" where
  "yearData d y = sort_key gas_consumption (filter (\<lambda>r. year r = y) (data d))"

definition rank_step ::
    "nat \<Rightarrow> (jsstring \<rightharpoonup> Ranking) \<Rightarrow> GasConsumptionRecord \<times> nat \<Rightarrow> (jsstring \<rightharpoonup> Ranking)" where
  "rank_step n m p =
     (case p of (record, index) \<Rightarrow>
        m(normalizeMunicipalityName (municipality record) \<mapsto> \<lparr>rank = index + 1, total_count = n\<rparr>))"

definition rankYear :: "GasConsumptionRecord list \<Rightarrow> (jsstring \<rightharpoonup> Ranking)" where
  "rankYear yd = foldl (rank_step (length yd)) Map.empty (zip yd [0..<length yd])"

definition rankingsPerYear :: "GasConsumptionData \<Rightarrow> (int \<rightharpoonup> (jsstring \<rightharpoonup> Ranking))" where
  "rankingsPerYear d =
     foldl (\<lambda>rankings y. rankings(y \<mapsto> rankYear (yearData d y))) Map.empty
       (newSet (map year (data d)))"

subsection \<open>What the ranking stores\<close>

text \<open>The key and the value of the assignment made for a record at an index.\<close>

definition rankedName :: "GasConsumptionRecord \<Rightarrow> jsstring" where
  "rankedName record = normalizeMunicipalityName (municipality record)"

definition rankingAt :: "nat \<Rightarrow> nat \<Rightarrow> Ranking" where
  "rankingAt n index = \<lparr>rank = index + 1, total_count = n\<rparr>"

subsection \<open>The ranking of the map view\<close>

text \<open>
  The map view ranks the municipalities of the selected year from the dictionary
  \<^verbatim>\<open>consumptionByMunicipality = getConsumptionByYear(consumptionData, selectedYear)\<close>:
  \<^verbatim>\<open>
  const entries = Object.entries(consumptionByMunicipality)
    .filter(([, value]) => value != null)
    .sort(([, a], [, b]) => a - b); // Lower consumption = better rank
  const rankMap: { [name: string]: number } = {};
  entries.forEach(([name], index) => {
    rankMap[name] = index + 1;
  });
  return { rankMap, total: entries.length };
  \<close>
  Here the order of the keys of the dictionary matters. \<open>byYearObject\<close> is the object
  built by \<^verbatim>\<open>getConsumptionByYear\<close> with its keys in the order of their creation, an
  assignment to an existing key updating it in place; its map is \<open>getConsumptionByYear\<close>
  (lemma \<open>byYearObject_map_of\<close>). \<^verbatim>\<open>Object.entries\<close> lists the keys that are array
  indices (the decimal numerals below \<open>2\<^sup>3\<^sup>2 - 1\<close> without a leading zero) in ascending
  numeric order and then the other keys in creation order. Every value of the
  dictionary is a number, so the filter keeps every entry. The sort is stable and
  ascending in the value. The field \<open>rankings_total\<close> is \<^verbatim>\<open>total\<close>.
\<close>

type_synonym consumptionObject = "(jsstring \<times> real) list"

definition byYearObject_step ::
    "int \<Rightarrow> consumptionObject \<Rightarrow> GasConsumptionRecord \<Rightarrow> consumptionObject" where
  "byYearObject_step y result record =
     (if year record = y
      then AList.update (normalizeMunicipalityName (municipality record))
             (gas_consumption record) result
      else result)"

definition byYearObject :: "GasConsumptionData \<Rightarrow> int \<Rightarrow> consumptionObject" where
  "byYearObject d y = foldl (byYearObject_step y) [] (data d)"

definition isDigit :: "nat \<Rightarrow> bool" where
  "isDigit c \<longleftrightarrow> 48 \<le> c \<and> c \<le> 57"

definition digitsValue :: "jsstring \<Rightarrow> nat" where
  "digitsValue s = foldl (\<lambda>a c. 10 * a + (c - 48)) 0 s"

definition isArrayIndexKey :: "jsstring \<Rightarrow> bool" where
  "isArrayIndexKey s \<longleftrightarrow>
     s \<noteq> [] \<and> list_all isDigit s \<and> (s = [48] \<or> hd s \<noteq> 48) \<and> digitsValue s < 2 ^ 32 - 1"

definition Object_entries_str :: "(jsstring \<times> 'v) list \<Rightarrow> (jsstring \<times> 'v) list" where
  "Object_entries_str obj =
     sort_key (\<lambda>p. digitsValue (fst p)) (filter (\<lambda>p. isArrayIndexKey (fst p)) obj) @
     filter (\<lambda>p. \<not> isArrayIndexKey (fst p)) obj"

record MapRankings =
  rankMap :: "jsstring \<rightharpoonup> nat"
  rankings_total :: nat

definition rankMap_step :: "(jsstring \<rightharpoonup> nat) \<Rightarrow> (jsstring \<times> real) \<times> nat \<Rightarrow> (jsstring \<rightharpoonup> nat)" where
  "rankMap_step m p = (case p of ((name, value), index) \<Rightarrow> m(name \<mapsto> index + 1))"

definition sortedEntries :: "GasConsumptionData \<Rightarrow> int \<Rightarrow> (jsstring \<times> real) list" where
  "sortedEntries d selectedYear = sort_key snd (Object_entries_str (byYearObject d selectedYear))"

definition rankings :: "GasConsumptionData \<Rightarrow> int \<Rightarrow> MapRankings" where
  "rankings d selectedYear =
     (let entries = sortedEntries d selectedYear
      in \<lparr>rankMap = foldl rankMap_step Map.empty (zip entries [0..<length entries]),
          rankings_total = length entries\<rparr>)"

text \<open>The entry that a record of the selected year writes into the dictionary.\<close>

definition nameAndValue :: "GasConsumptionRecord \<Rightarrow> jsstring \<times> real" where
  "nameAndValue record = (rankedName record, gas_consumption record)"

section \<open>Year-over-year change\<close>




text \<open>
  The expression \<^verbatim>\<open>((current - previous) / previous) * 100\<close>, each of its three
  operations rounded by \<open>fl\<close>.
\<close>

definition percentChange :: "rounding \<Rightarrow> real \<Rightarrow> real \<Rightarrow> number" where
  "percentChange fl current previous =
     rmul fl (rdiv fl (rsub fl (Num current) (Num previous)) (Num previous)) (Num 100)"








chapter \<open>Properties\<close>

section \<open>slugify: idempotence and letter case\<close>

lemma hyphen_not_alnum: "\<not> is_lower_alnum hyphen"
  by (simp add: is_lower_alnum_def hyphen_def)

lemma apostrophe_not_slug_char: "\<not> is_slug_char apostrophe"
  by (simp add: is_slug_char_def is_lower_alnum_def hyphen_def apostrophe_def)

lemma runs_ok_Cons_alnum: "is_lower_alnum c \<Longrightarrow> runs_ok t \<Longrightarrow> runs_ok (c # t)"
  using hyphen_not_alnum by (cases t) (auto simp: is_slug_char_def)

lemma runs_ok_Cons_hyphen:
  "runs_ok t \<Longrightarrow> t = [] \<or> is_lower_alnum (hd t) \<Longrightarrow> runs_ok (hyphen # t)"
  by (cases t) (auto simp: is_slug_char_def)

lemma runs_ok_chars: "runs_ok s \<Longrightarrow> c \<in> set s \<Longrightarrow> is_slug_char c"
  by (induction s rule: runs_ok.induct) auto

lemma runs_ok_butlast: "runs_ok s \<Longrightarrow> runs_ok (butlast s)"
  by (induction s rule: runs_ok.induct) (auto simp: is_slug_char_def split: if_splits)

lemma runs_ok_last_butlast:
  "runs_ok s \<Longrightarrow> s \<noteq> [] \<Longrightarrow> last s = hyphen \<Longrightarrow> butlast s \<noteq> [] \<Longrightarrow> last (butlast s) \<noteq> hyphen"
  using hyphen_not_alnum
  by (induction s rule: runs_ok.induct) (auto split: if_splits)

lemma replace_hd:
  "u = [] \<or> is_lower_alnum (hd u) \<Longrightarrow>
     replaceNonAlnumRuns u = [] \<or> is_lower_alnum (hd (replaceNonAlnumRuns u))"
  by (cases u) auto

lemma runs_ok_replace: "runs_ok (replaceNonAlnumRuns s)"
proof (induction s rule: replaceNonAlnumRuns.induct)
  case 1
  show ?case by simp
next
  case (2 c cs)
  show ?case
  proof (cases "is_lower_alnum c")
    case True
    with 2 show ?thesis by (simp add: runs_ok_Cons_alnum)
  next
    case False
    let ?u = "dropWhile (\<lambda>x. \<not> is_lower_alnum x) cs"
    have "?u = [] \<or> is_lower_alnum (hd ?u)"
      using hd_dropWhile [of "\<lambda>x. \<not> is_lower_alnum x" cs] by blast
    then have "replaceNonAlnumRuns ?u = [] \<or> is_lower_alnum (hd (replaceNonAlnumRuns ?u))"
      by (rule replace_hd)
    with 2 False show ?thesis by (simp add: runs_ok_Cons_hyphen)
  qed
qed

lemma runs_ok_stripLeading:
  "runs_ok t \<Longrightarrow> runs_ok (stripLeadingHyphen t) \<and>
     (stripLeadingHyphen t = [] \<or> hd (stripLeadingHyphen t) \<noteq> hyphen)"
  using hyphen_not_alnum
  by (induction t rule: runs_ok.induct) (auto simp: stripLeadingHyphen_def)

lemma slugForm_stripTrailing:
  assumes "runs_ok s" and "s = [] \<or> hd s \<noteq> hyphen"
  shows "slugForm (stripTrailingHyphen s)"
proof (cases "s \<noteq> [] \<and> last s = hyphen")
  case False
  with assms show ?thesis
    by (auto simp: slugForm_def stripTrailingHyphen_def)
next
  case True
  then have eq: "stripTrailingHyphen s = butlast s"
    by (simp add: stripTrailingHyphen_def)
  have hd: "butlast s \<noteq> [] \<Longrightarrow> hd (butlast s) \<noteq> hyphen"
    using assms(2) True by (cases s) (auto split: if_splits)
  show ?thesis
    unfolding eq slugForm_def
    using runs_ok_butlast [OF assms(1)] runs_ok_last_butlast [OF assms(1)] True hd
    by blast
qed

lemma slugForm_strip: "runs_ok t \<Longrightarrow> slugForm (stripEdgeHyphens t)"
  unfolding stripEdgeHyphens_def
  using runs_ok_stripLeading [of t] by (intro slugForm_stripTrailing) auto

lemma slugForm_slugify: "slugForm (slugify lc x)"
  by (simp add: slugify_def slugForm_strip runs_ok_replace)

lemma slugForm_removeApostrophes: "runs_ok s \<Longrightarrow> removeApostrophes s = s"
  unfolding removeApostrophes_def
  using apostrophe_not_slug_char runs_ok_chars by (intro filter_True) blast

lemma slugForm_replace:
  "runs_ok s \<Longrightarrow> s = [] \<or> last s \<noteq> hyphen \<Longrightarrow> replaceNonAlnumRuns s = s"
  by (induction s rule: runs_ok.induct) (auto simp: is_slug_char_def split: if_splits)

lemma slugForm_stripEdge: "slugForm s \<Longrightarrow> stripEdgeHyphens s = s"
  by (cases s)
     (auto simp: slugForm_def stripEdgeHyphens_def stripLeadingHyphen_def stripTrailingHyphen_def)

lemma asciiToLowerCase_fixes_slugs:
  "\<forall>c \<in> set s. is_slug_char c \<Longrightarrow> asciiToLowerCase s = s"
  unfolding asciiToLowerCase_def
  by (intro map_idI) (auto simp: is_slug_char_def is_lower_alnum_def hyphen_def)

lemma slugify_fixes_slugs:
  assumes "\<And>s. \<forall>c \<in> set s. is_slug_char c \<Longrightarrow> toLowerCase s = s"
    and sf: "slugForm y"
  shows "slugify toLowerCase y = y"
proof -
  from sf have ro: "runs_ok y" and ends: "y = [] \<or> last y \<noteq> hyphen"
    by (auto simp: slugForm_def)
  have "toLowerCase y = y"
    using assms(1) runs_ok_chars [OF ro] by blast
  then show ?thesis
    using slugForm_removeApostrophes [OF ro] slugForm_replace [OF ro ends] slugForm_stripEdge [OF sf]
    by (simp add: slugify_def)
qed

text \<open>
  C9. Provided lower-casing leaves strings over \<open>a-z\<close>, \<open>0-9\<close>, \<open>-\<close> unchanged (as
  \<^verbatim>\<open>String.prototype.toLowerCase\<close> does), \<open>slugify\<close> is idempotent; and two
  names that differ only in letter case, that is, whose lower-case forms coincide, have
  the same slug.
\<close>

theorem slugify_idempotent_case_insensitive:
  assumes "\<And>s. \<forall>c \<in> set s. is_slug_char c \<Longrightarrow> toLowerCase s = s"
  shows "slugify toLowerCase (slugify toLowerCase x) = slugify toLowerCase x \<and>
         (toLowerCase x = toLowerCase y \<longrightarrow> slugify toLowerCase x = slugify toLowerCase y)"
proof
  show "slugify toLowerCase (slugify toLowerCase x) = slugify toLowerCase x"
    using assms slugForm_slugify by (rule slugify_fixes_slugs)
  show "toLowerCase x = toLowerCase y \<longrightarrow> slugify toLowerCase x = slugify toLowerCase y"
    by (simp add: slugify_def)
qed

theorem slugify_idempotent_case_insensitive_witness:
  "slugify asciiToLowerCase (slugify asciiToLowerCase (str ''Den Haag'')) =
     slugify asciiToLowerCase (str ''Den Haag'') \<and>
   slugify asciiToLowerCase (str ''Den Haag'') = slugify asciiToLowerCase (str ''DEN haag'') \<and>
   asciiToLowerCase (str ''Den Haag'') = asciiToLowerCase (str ''DEN haag'') \<and>
   slugify asciiToLowerCase (str ''Den Haag'') = str ''den-haag'' \<and>
   slugify asciiToLowerCase (str ''S'' @ [0xFA] @ str ''dwest-Frysl'' @ [0xE2] @ str ''n'') =
     str ''s-dwest-frysl-n''"
proof -
  have lc: "asciiToLowerCase (str ''Den Haag'') = asciiToLowerCase (str ''DEN haag'')"
    by (simp add: asciiToLowerCase_def str_def)
  have val: "slugify asciiToLowerCase (str ''Den Haag'') = str ''den-haag''"
            "slugify asciiToLowerCase (str ''S'' @ [0xFA] @ str ''dwest-Frysl'' @ [0xE2] @ str ''n'') =
               str ''s-dwest-frysl-n''"
    by (simp_all add: slugify_def asciiToLowerCase_def str_def removeApostrophes_def
          stripEdgeHyphens_def stripLeadingHyphen_def stripTrailingHyphen_def hyphen_def
          apostrophe_def is_lower_alnum_def)
  show ?thesis
    using slugify_idempotent_case_insensitive
            [of asciiToLowerCase "str ''Den Haag''" "str ''DEN haag''",
             OF asciiToLowerCase_fixes_slugs] lc val
    by blast
qed

section \<open>findMunicipalityBySlug: the first name with the slug\<close>

lemma find_app:
  "List.find P (xs @ ys) = (case List.find P xs of Some x \<Rightarrow> Some x | None \<Rightarrow> List.find P ys)"
  by (induction xs) auto

lemma find_setAdd:
  "List.find P (setAdd acc x) =
     (case List.find P acc of Some y \<Rightarrow> Some y | None \<Rightarrow> if P x then Some x else None)"
proof (cases "List.find P acc")
  case None
  then have "x \<in> set acc \<Longrightarrow> \<not> P x"
    by (auto simp: find_None_iff)
  with None show ?thesis
    by (auto simp: setAdd_def find_app)
next
  case (Some y)
  then show ?thesis
    by (simp add: setAdd_def find_app)
qed

lemma find_setAdd_fold:
  "List.find P (foldl setAdd acc xs) =
     (case List.find P acc of Some y \<Rightarrow> Some y | None \<Rightarrow> List.find P xs)"
proof (induction xs arbitrary: acc)
  case Nil
  show ?case by (simp split: option.split)
next
  case (Cons x xs)
  show ?case
    by (simp add: Cons.IH find_setAdd split: option.split)
qed

lemma set_newSet: "set (foldl setAdd acc xs) = set acc \<union> set xs"
  by (induction xs arbitrary: acc) (auto simp: setAdd_def)

lemma find_newSet: "List.find P (newSet xs) = List.find P xs"
  by (simp add: newSet_def find_setAdd_fold)

text \<open>
  C10. For every record of the dataset, looking up the slug of its municipality name
  returns a name with the same slug, and that name is the first one in dataset order
  whose slug matches. The lookup returns \<^verbatim>\<open>null\<close> exactly when no name of the
  dataset has the queried slug.
\<close>

theorem findMunicipalityBySlug_roundtrip:
  "(\<forall>r \<in> set (data d). \<exists>m i.
       findMunicipalityBySlug toLowerCase d (slugify toLowerCase (municipality r)) = Some m \<and>
       slugify toLowerCase m = slugify toLowerCase (municipality r) \<and>
       i < length (data d) \<and> municipality (data d ! i) = m \<and>
       (\<forall>j < i. slugify toLowerCase (municipality (data d ! j)) \<noteq>
                 slugify toLowerCase (municipality r))) \<and>
   (findMunicipalityBySlug toLowerCase d slug = None \<longleftrightarrow>
      (\<forall>r \<in> set (data d). slugify toLowerCase (municipality r) \<noteq> slug))"
proof
  show "\<forall>r \<in> set (data d). \<exists>m i.
       findMunicipalityBySlug toLowerCase d (slugify toLowerCase (municipality r)) = Some m \<and>
       slugify toLowerCase m = slugify toLowerCase (municipality r) \<and>
       i < length (data d) \<and> municipality (data d ! i) = m \<and>
       (\<forall>j < i. slugify toLowerCase (municipality (data d ! j)) \<noteq>
                 slugify toLowerCase (municipality r))"
  proof
    fix r assume r: "r \<in> set (data d)"
    let ?P = "\<lambda>name. slugify toLowerCase name = slugify toLowerCase (municipality r)"
    let ?names = "map municipality (data d)"
    have "List.find ?P ?names \<noteq> None"
      using r by (auto simp: find_None_iff)
    then obtain m where m: "List.find ?P ?names = Some m" by blast
    then obtain i where i: "i < length ?names" "?P (?names ! i)" "m = ?names ! i"
        "\<forall>j < i. \<not> ?P (?names ! j)"
      unfolding find_Some_iff by blast
    have "findMunicipalityBySlug toLowerCase d (slugify toLowerCase (municipality r)) = Some m"
      by (simp add: findMunicipalityBySlug_def find_newSet m)
    moreover have "slugify toLowerCase m = slugify toLowerCase (municipality r)"
      using i by simp
    moreover have "i < length (data d)" "municipality (data d ! i) = m"
      using i by simp_all
    moreover have "\<forall>j < i. slugify toLowerCase (municipality (data d ! j)) \<noteq>
                 slugify toLowerCase (municipality r)"
      using i by simp
    ultimately show "\<exists>m i.
       findMunicipalityBySlug toLowerCase d (slugify toLowerCase (municipality r)) = Some m \<and>
       slugify toLowerCase m = slugify toLowerCase (municipality r) \<and>
       i < length (data d) \<and> municipality (data d ! i) = m \<and>
       (\<forall>j < i. slugify toLowerCase (municipality (data d ! j)) \<noteq>
                 slugify toLowerCase (municipality r))"
      by blast
  qed
  show "findMunicipalityBySlug toLowerCase d slug = None \<longleftrightarrow>
      (\<forall>r \<in> set (data d). slugify toLowerCase (municipality r) \<noteq> slug)"
    by (simp add: findMunicipalityBySlug_def find_newSet find_None_iff)
qed

theorem findMunicipalityBySlug_roundtrip_witness:
  "(\<exists>m i. findMunicipalityBySlug asciiToLowerCase exampleData
              (slugify asciiToLowerCase (str ''B'')) = Some m \<and>
          slugify asciiToLowerCase m = slugify asciiToLowerCase (str ''B'') \<and>
          i < length (data exampleData) \<and> municipality (data exampleData ! i) = m) \<and>
   findMunicipalityBySlug asciiToLowerCase exampleData (str ''c'') = None \<and>
   slugify asciiToLowerCase (str ''B'') = str ''b''"
proof -
  note rt = findMunicipalityBySlug_roundtrip
    [where d = exampleData and toLowerCase = asciiToLowerCase and slug = "str ''c''"]
  have slug: "slugify asciiToLowerCase (str ''A'') = str ''a''"
             "slugify asciiToLowerCase (str ''B'') = str ''b''"
    by (simp_all add: slugify_def asciiToLowerCase_def str_def removeApostrophes_def
          stripEdgeHyphens_def stripLeadingHyphen_def stripTrailingHyphen_def hyphen_def
          apostrophe_def is_lower_alnum_def)
  have mem: "\<lparr>municipality = str ''B'', year = 2020, gas_consumption = 1000 * 2\<rparr>
               \<in> set (data exampleData)"
    by (simp add: exampleData_def)
  have none: "\<forall>r \<in> set (data exampleData). slugify asciiToLowerCase (municipality r) \<noteq> str ''c''"
    by (simp add: exampleData_def slug) (simp add: str_def)
  from rt mem have
    "\<exists>m i. findMunicipalityBySlug asciiToLowerCase exampleData
              (slugify asciiToLowerCase (str ''B'')) = Some m \<and>
          slugify asciiToLowerCase m = slugify asciiToLowerCase (str ''B'') \<and>
          i < length (data exampleData) \<and> municipality (data exampleData ! i) = m"
    by fastforce
  moreover from rt none
  have "findMunicipalityBySlug asciiToLowerCase exampleData (str ''c'') = None"
    by blast
  ultimately show ?thesis
    using slug by blast
qed

section \<open>normalizeMunicipalityName: idempotence\<close>

text \<open>
  Every pattern contains an opening parenthesis. A name with at most one of them loses it
  with the first pattern that matches, and no pattern can occur afterwards; a name in
  which no pattern matches is only trimmed, and trimming cannot create an occurrence.
\<close>

lemma suffixes_lparen: "p \<in> set suffixes \<Longrightarrow> lparen \<in> set p"
  by (auto simp: suffixes_def str_def lparen_def)

lemma replaceFirst_unchanged_iff:
  "pat \<noteq> [] \<Longrightarrow> replaceFirst pat s = s \<longleftrightarrow> \<not> sublist pat s"
proof (induction s)
  case Nil
  then show ?case by simp
next
  case (Cons c cs)
  show ?case
  proof (cases "prefix pat (c # cs)")
    case True
    have "length (drop (length pat) (c # cs)) < length (c # cs)"
      using Cons.prems by simp
    then have "drop (length pat) (c # cs) \<noteq> c # cs"
      by (metis less_irrefl)
    with True show ?thesis
      by (auto simp: sublist_Cons_right)
  next
    case False
    with Cons show ?thesis
      by (simp add: sublist_Cons_right)
  qed
qed

lemma replaceFirst_count_less:
  assumes "x \<in> set pat" and "replaceFirst pat s \<noteq> s"
  shows "count_list (replaceFirst pat s) x < count_list s x"
  using assms(2)
proof (induction s)
  case Nil
  then show ?case by simp
next
  case (Cons c cs)
  show ?case
  proof (cases "prefix pat (c # cs)")
    case True
    then obtain rest where r: "c # cs = pat @ rest"
      by (auto simp: prefix_def)
    have "0 < count_list pat x"
      using assms(1) by (metis count_list_0_iff neq0_conv)
    then have "count_list rest x < count_list (pat @ rest) x"
      by simp
    moreover have "replaceFirst pat (c # cs) = rest"
    proof -
      have "replaceFirst pat (c # cs) = drop (length pat) (c # cs)"
        using True by simp
      then show ?thesis by (simp add: r)
    qed
    ultimately show ?thesis
      by (simp only: r)
  next
    case False
    with Cons show ?thesis by auto
  qed
qed

lemma replaceFirst_absent:
  "x \<in> set pat \<Longrightarrow> x \<notin> set s \<Longrightarrow> replaceFirst pat s = s"
  using replaceFirst_count_less [of x pat s] by (auto simp: count_list_0_iff)

lemma stripSuffixes_absent:
  "\<forall>p \<in> set ps. x \<in> set p \<Longrightarrow> x \<notin> set s \<Longrightarrow> stripSuffixes ps s = s"
  unfolding stripSuffixes_def
proof (induction ps arbitrary: s)
  case Nil
  show ?case by simp
next
  case (Cons p ps)
  have "replaceFirst p s = s"
    using Cons.prems by (intro replaceFirst_absent [of x]) simp_all
  with Cons show ?case by simp
qed

lemma stripSuffixes_no_occurrence:
  "\<forall>p \<in> set ps. \<not> sublist p s \<Longrightarrow> stripSuffixes ps s = s"
  unfolding stripSuffixes_def
proof (induction ps)
  case Nil
  show ?case by simp
next
  case (Cons p ps)
  then have "replaceFirst p s = s"
    by (cases "p = []") (simp_all add: replaceFirst_unchanged_iff)
  with Cons show ?case by simp
qed

lemma stripSuffixes_one_paren:
  assumes "\<forall>p \<in> set ps. x \<in> set p" and "count_list s x \<le> 1"
  shows "(stripSuffixes ps s = s \<and> (\<forall>p \<in> set ps. \<not> sublist p s)) \<or>
         x \<notin> set (stripSuffixes ps s)"
  using assms
proof (induction ps arbitrary: s)
  case Nil
  show ?case by (simp add: stripSuffixes_def)
next
  case (Cons p ps)
  have step: "stripSuffixes (p # ps) s = stripSuffixes ps (replaceFirst p s)"
    by (simp add: stripSuffixes_def)
  have p: "x \<in> set p" and ps: "\<forall>p \<in> set ps. x \<in> set p"
    using Cons.prems(1) by simp_all
  show ?case
  proof (cases "replaceFirst p s = s")
    case True
    have "p \<noteq> []" using p by auto
    then have "\<not> sublist p s"
      using True by (simp add: replaceFirst_unchanged_iff)
    with Cons.IH [OF ps Cons.prems(2)] True show ?thesis
      by (auto simp: step)
  next
    case False
    then have "count_list (replaceFirst p s) x < count_list s x"
      using p by (rule replaceFirst_count_less [rotated])
    then have "x \<notin> set (replaceFirst p s)"
      using Cons.prems(2) by (simp add: count_list_0_iff [symmetric])
    then show ?thesis
      using stripSuffixes_absent [OF ps] by (simp add: step)
  qed
qed

lemma trim_prefix: "prefix (trim s) (dropWhile isWhiteSpace s)"
proof -
  let ?t = "dropWhile isWhiteSpace s"
  have "rev ?t = takeWhile isWhiteSpace (rev ?t) @ dropWhile isWhiteSpace (rev ?t)"
    by simp
  then have "?t = trim s @ rev (takeWhile isWhiteSpace (rev ?t))"
    unfolding trim_def by (metis rev_append rev_rev_ident)
  then show ?thesis
    by (metis prefixI)
qed

lemma trim_sublist: "sublist (trim s) s"
proof -
  have "suffix (dropWhile isWhiteSpace s) s"
    by (rule suffix_dropWhile)
  with trim_prefix [of s] show ?thesis
    by (meson prefix_imp_sublist suffix_imp_sublist sublist_order.order_trans)
qed

lemma trim_idem: "trim (trim s) = trim s"
proof -
  let ?t = "dropWhile isWhiteSpace s"
  let ?u = "trim s"
  have rear: "dropWhile isWhiteSpace (rev ?u) = rev ?u"
    by (simp add: trim_def)
  have front: "dropWhile isWhiteSpace ?u = ?u"
  proof (cases ?u)
    case Nil
    then show ?thesis by simp
  next
    case (Cons c cs)
    with trim_prefix [of s] obtain zs where zs: "?t = c # (cs @ zs)"
      by (auto simp: prefix_def)
    then have "?t \<noteq> []" and "hd ?t = c"
      by (simp_all only: list.sel list.distinct not_False_eq_True)
    then have "\<not> isWhiteSpace c"
      using hd_dropWhile [of isWhiteSpace s] by blast
    with Cons show ?thesis by simp
  qed
  have "trim ?u = rev (dropWhile isWhiteSpace (rev (dropWhile isWhiteSpace ?u)))"
    by (simp only: trim_def [of ?u])
  also have "\<dots> = ?u"
    by (simp only: front rear rev_rev_ident)
  finally show ?thesis .
qed

lemma replaceFirst_length_le: "length (replaceFirst pat s) \<le> length s"
  by (induction s) auto

lemma replaceFirst_same_length:
  "length (replaceFirst pat s) = length s \<Longrightarrow> replaceFirst pat s = s"
proof (induction s)
  case Nil
  show ?case by simp
next
  case (Cons c cs)
  show ?case
  proof (cases "prefix pat (c # cs)")
    case True
    with Cons.prems have "Suc (length cs) - length pat = Suc (length cs)"
      by simp
    then have "length pat = 0"
      by arith
    then show ?thesis by simp
  next
    case False
    with Cons show ?thesis by simp
  qed
qed

lemma stripSuffixes_length_le: "length (stripSuffixes ps s) \<le> length s"
  unfolding stripSuffixes_def
proof (induction ps arbitrary: s)
  case Nil
  show ?case by simp
next
  case (Cons p ps)
  have "length (foldl (\<lambda>s pat. replaceFirst pat s) (replaceFirst p s) ps)
          \<le> length (replaceFirst p s)"
    by (rule Cons.IH)
  also have "\<dots> \<le> length s"
    by (rule replaceFirst_length_le)
  finally show ?case by simp
qed

lemma stripSuffixes_same_length:
  "length (stripSuffixes ps s) = length s \<Longrightarrow> \<forall>p \<in> set ps. p \<noteq> [] \<longrightarrow> \<not> sublist p s"
proof (induction ps arbitrary: s)
  case Nil
  show ?case by simp
next
  case (Cons p ps)
  have step: "stripSuffixes (p # ps) s = stripSuffixes ps (replaceFirst p s)"
    by (simp add: stripSuffixes_def)
  have "length s = length (stripSuffixes ps (replaceFirst p s))"
    using Cons.prems by (simp add: step)
  also have "\<dots> \<le> length (replaceFirst p s)"
    by (rule stripSuffixes_length_le)
  finally have "length (replaceFirst p s) = length s"
    using replaceFirst_length_le [of p s] by simp
  then have same: "replaceFirst p s = s"
    by (rule replaceFirst_same_length)
  then have "p \<noteq> [] \<longrightarrow> \<not> sublist p s"
    using replaceFirst_unchanged_iff [of p s] by blast
  moreover have "\<forall>q \<in> set ps. q \<noteq> [] \<longrightarrow> \<not> sublist q s"
    using Cons.prems Cons.IH [of s] by (simp add: step same)
  ultimately show ?case by simp
qed

lemma trim_length_le: "length (trim s) \<le> length s"
proof -
  have "length (trim s) \<le> length (dropWhile isWhiteSpace s)"
    using trim_prefix [of s] by (rule prefix_length_le)
  also have "\<dots> \<le> length s"
    by (rule length_dropWhile_le)
  finally show ?thesis .
qed

lemma suffixes_nonempty: "p \<in> set suffixes \<Longrightarrow> p \<noteq> []"
  using suffixes_lparen by fastforce

lemma normalize_fixed_iff:
  "normalizeMunicipalityName t = t \<longleftrightarrow>
     trim t = t \<and> (\<forall>p \<in> set suffixes. \<not> sublist p t)"
proof
  assume fx: "normalizeMunicipalityName t = t"
  have "length t = length (trim (stripSuffixes suffixes t))"
    using fx by (simp add: normalizeMunicipalityName_def)
  also have "\<dots> \<le> length (stripSuffixes suffixes t)"
    by (rule trim_length_le)
  finally have "length (stripSuffixes suffixes t) = length t"
    using stripSuffixes_length_le [of suffixes t] by simp
  then have no: "\<forall>p \<in> set suffixes. \<not> sublist p t"
    using stripSuffixes_same_length suffixes_nonempty by blast
  then have "stripSuffixes suffixes t = t"
    by (rule stripSuffixes_no_occurrence)
  with fx have "trim t = t"
    by (simp add: normalizeMunicipalityName_def)
  with no show "trim t = t \<and> (\<forall>p \<in> set suffixes. \<not> sublist p t)"
    by blast
next
  assume "trim t = t \<and> (\<forall>p \<in> set suffixes. \<not> sublist p t)"
  then show "normalizeMunicipalityName t = t"
    by (simp add: normalizeMunicipalityName_def stripSuffixes_no_occurrence)
qed

lemma normalize_trimmed: "trim (normalizeMunicipalityName s) = normalizeMunicipalityName s"
  by (simp add: normalizeMunicipalityName_def trim_idem)

lemma normalize_idem_iff:
  "normalizeMunicipalityName (normalizeMunicipalityName s) = normalizeMunicipalityName s \<longleftrightarrow>
     (\<forall>p \<in> set suffixes. \<not> sublist p (normalizeMunicipalityName s))"
  by (simp add: normalize_fixed_iff normalize_trimmed)

lemma normalize_fixpoint:
  assumes "\<forall>p \<in> set suffixes. \<not> sublist p (normalizeMunicipalityName s)"
  shows "normalizeMunicipalityName (normalizeMunicipalityName s) = normalizeMunicipalityName s"
proof -
  have "stripSuffixes suffixes (normalizeMunicipalityName s) = normalizeMunicipalityName s"
    using assms by (rule stripSuffixes_no_occurrence)
  then show ?thesis
    by (simp add: normalizeMunicipalityName_def [of "normalizeMunicipalityName s"])
       (simp add: normalizeMunicipalityName_def trim_idem)
qed

lemma normalize_idem_one_paren:
  assumes "count_list name lparen \<le> 1"
  shows "normalizeMunicipalityName (normalizeMunicipalityName name) =
         normalizeMunicipalityName name"
proof (rule normalize_fixpoint, rule ballI)
  fix p assume p: "p \<in> set suffixes"
  let ?n = "normalizeMunicipalityName name"
  have sub: "sublist ?n (stripSuffixes suffixes name)"
    unfolding normalizeMunicipalityName_def by (rule trim_sublist)
  have all: "\<forall>p \<in> set suffixes. lparen \<in> set p"
    using suffixes_lparen by blast
  from stripSuffixes_one_paren [OF all assms]
  show "\<not> sublist p ?n"
  proof
    assume "stripSuffixes suffixes name = name \<and> (\<forall>p \<in> set suffixes. \<not> sublist p name)"
    then show ?thesis
      using sub p by (metis sublist_order.order_trans)
  next
    assume "lparen \<notin> set (stripSuffixes suffixes name)"
    then have "lparen \<notin> set ?n"
      using sub set_mono_sublist by blast
    then show ?thesis
      using suffixes_lparen [OF p] set_mono_sublist by blast
  qed
qed

text \<open>
  C2 (as amended). Normalizing a normalized name changes nothing exactly when the
  normalized name contains none of the listed suffixes. In particular, normalization is
  idempotent on every name that contains at most one opening parenthesis.
\<close>

theorem normalizeMunicipalityName_idempotent_iff:
  "(normalizeMunicipalityName (normalizeMunicipalityName name) = normalizeMunicipalityName name \<longleftrightarrow>
      (\<forall>p \<in> set suffixes. \<not> sublist p (normalizeMunicipalityName name))) \<and>
   (count_list name lparen \<le> 1 \<longrightarrow>
      normalizeMunicipalityName (normalizeMunicipalityName name) = normalizeMunicipalityName name)"
  using normalize_idem_iff [of name] normalize_idem_one_paren [of name] by blast

theorem normalizeMunicipalityName_idempotent_iff_witness:
  "count_list (str ''Udenhout (gemeente)'') lparen \<le> 1 \<and>
   normalizeMunicipalityName (normalizeMunicipalityName (str ''Udenhout (gemeente)'')) =
     normalizeMunicipalityName (str ''Udenhout (gemeente)'') \<and>
   normalizeMunicipalityName (str ''Udenhout (gemeente)'') = str ''Udenhout'' \<and>
   str '' (gemeente)'' \<in> set suffixes \<and>
   sublist (str '' (gemeente)'') (normalizeMunicipalityName (str ''A (gemeente) (gemeente)'')) \<and>
   normalizeMunicipalityName (normalizeMunicipalityName (str ''A (gemeente) (gemeente)'')) \<noteq>
     normalizeMunicipalityName (str ''A (gemeente) (gemeente)'')"
proof -
  have one: "count_list (str ''Udenhout (gemeente)'') lparen \<le> 1"
    by (simp add: str_def lparen_def)
  have val: "normalizeMunicipalityName (str ''Udenhout (gemeente)'') = str ''Udenhout''"
    by (simp add: normalizeMunicipalityName_def stripSuffixes_def suffixes_def str_def
          trim_def isWhiteSpace_def)
  have twice: "normalizeMunicipalityName (str ''A (gemeente) (gemeente)'') = str ''A (gemeente)''"
    by (simp add: normalizeMunicipalityName_def stripSuffixes_def suffixes_def str_def
          trim_def isWhiteSpace_def)
  have mem: "str '' (gemeente)'' \<in> set suffixes"
    by (simp add: suffixes_def)
  have "str ''A (gemeente)'' = str ''A'' @ str '' (gemeente)'' @ []"
    by (simp add: str_def)
  then have occ: "sublist (str '' (gemeente)'') (str ''A (gemeente)'')"
    unfolding sublist_def by blast
  have idem: "normalizeMunicipalityName (normalizeMunicipalityName (str ''Udenhout (gemeente)'')) =
     normalizeMunicipalityName (str ''Udenhout (gemeente)'')"
    using normalizeMunicipalityName_idempotent_iff [of "str ''Udenhout (gemeente)''"] one
    by blast
  have "normalizeMunicipalityName (normalizeMunicipalityName (str ''A (gemeente) (gemeente)'')) \<noteq>
     normalizeMunicipalityName (str ''A (gemeente) (gemeente)'')"
    using normalizeMunicipalityName_idempotent_iff [of "str ''A (gemeente) (gemeente)''"] mem occ
    by (auto simp: twice)
  with one idem val mem occ show ?thesis
    by (simp add: twice)
qed

text \<open>
  C2 as stated fails: a pattern is removed at its first occurrence only, so a name that
  carries the same suffix twice keeps one copy, which the next normalization removes.
  \<open>"A (gemeente) (gemeente)"\<close> normalizes to \<open>"A (gemeente)"\<close>, and that to \<open>"A"\<close>.
\<close>

theorem normalizeMunicipalityName_not_idempotent:
  "normalizeMunicipalityName (normalizeMunicipalityName (str ''A (gemeente) (gemeente)'')) \<noteq>
   normalizeMunicipalityName (str ''A (gemeente) (gemeente)'')"
  by (simp add: normalizeMunicipalityName_def stripSuffixes_def suffixes_def str_def
        trim_def isWhiteSpace_def)

section \<open>getConsumptionByYear: the last record wins\<close>

lemma byYear_fold_none:
  "\<forall>r \<in> set rs. \<not> contributes y n r \<Longrightarrow> foldl (byYear_step y) m rs n = m n"
  by (induction rs arbitrary: m) (auto simp: byYear_step_def contributes_def)

lemma byYear_fold_last:
  assumes "contributes y n r" and "\<forall>r' \<in> set post. \<not> contributes y n r'"
  shows "foldl (byYear_step y) m (pre @ r # post) n = Some (gas_consumption r)"
proof -
  have "foldl (byYear_step y) m (pre @ r # post) n =
        byYear_step y (foldl (byYear_step y) m pre) r n"
    using assms(2) by (simp add: byYear_fold_none)
  also have "\<dots> = Some (gas_consumption r)"
    using assms(1) by (simp add: byYear_step_def contributes_def)
  finally show ?thesis .
qed

text \<open>
  C6. The result maps \<open>n\<close> to \<open>c\<close> exactly when some record of the queried year has a name
  normalizing to \<open>n\<close>, and \<open>c\<close> is the consumption of the last such record in dataset
  order: the dataset splits as \<open>pre @ r # post\<close> where \<open>r\<close> is such a record with consumption
  \<open>c\<close> and no record of \<open>post\<close> is one. Records of other years never enter the condition.
\<close>

theorem getConsumptionByYear_last_wins:
  "getConsumptionByYear d y n = Some c \<longleftrightarrow>
     (\<exists>pre r post. data d = pre @ r # post \<and>
        year r = y \<and> normalizeMunicipalityName (municipality r) = n \<and>
        gas_consumption r = c \<and>
        (\<forall>r' \<in> set post. \<not> (year r' = y \<and> normalizeMunicipalityName (municipality r') = n)))"
  (is "?L \<longleftrightarrow> ?R")
proof
  assume ?R
  then obtain pre r post where "data d = pre @ r # post" "contributes y n r"
      "gas_consumption r = c" "\<forall>r' \<in> set post. \<not> contributes y n r'"
    unfolding contributes_def by blast
  then show ?L
    by (metis byYear_fold_last getConsumptionByYear_def)
next
  assume L: ?L
  have "\<exists>r \<in> set (data d). contributes y n r"
  proof (rule ccontr)
    assume "\<not> ?thesis"
    then have "getConsumptionByYear d y n = None"
      by (simp add: getConsumptionByYear_def byYear_fold_none)
    with L show False by simp
  qed
  then obtain pre r post where split: "data d = pre @ r # post" "contributes y n r"
      "\<forall>r' \<in> set post. \<not> contributes y n r'"
    using split_list_last_prop [of "data d" "contributes y n"] by blast
  then have "getConsumptionByYear d y n = Some (gas_consumption r)"
    by (metis byYear_fold_last getConsumptionByYear_def)
  with L have "gas_consumption r = c" by simp
  with split show ?R
    unfolding contributes_def by blast
qed

theorem getConsumptionByYear_last_wins_witness:
  "getConsumptionByYear collidingData 2020 (str ''A'') = Some 2000 \<and>
   getConsumptionByYear exampleData 2020 (str ''B'') = Some 2000"
proof -
  have norm: "normalizeMunicipalityName (str ''A (gemeente)'') = str ''A''"
             "normalizeMunicipalityName (str ''B'') = str ''B''"
             "normalizeMunicipalityName (str ''A'') = str ''A''"
    by (simp_all add: normalizeMunicipalityName_def stripSuffixes_def suffixes_def str_def
          trim_def isWhiteSpace_def)
  let ?a1 = "\<lparr>municipality = str ''A'', year = 2020, gas_consumption = 1000\<rparr>"
  let ?a2 = "\<lparr>municipality = str ''A (gemeente)'', year = 2020, gas_consumption = 2000\<rparr>"
  let ?b = "\<lparr>municipality = str ''B'', year = 2020, gas_consumption = 2000\<rparr>"
  let ?a3 = "\<lparr>municipality = str ''A'', year = 2021, gas_consumption = 1100\<rparr>"
  have "data collidingData = [?a1] @ ?a2 # [] \<and> year ?a2 = 2020 \<and>
        normalizeMunicipalityName (municipality ?a2) = str ''A'' \<and> gas_consumption ?a2 = 2000 \<and>
        (\<forall>r' \<in> set []. \<not> (year r' = 2020 \<and>
            normalizeMunicipalityName (municipality r') = str ''A''))"
    by (simp add: collidingData_def norm)
  then have c1: "getConsumptionByYear collidingData 2020 (str ''A'') = Some 2000"
    unfolding getConsumptionByYear_last_wins by blast
  have "data exampleData = [?a1] @ ?b # [?a3] \<and> year ?b = 2020 \<and>
        normalizeMunicipalityName (municipality ?b) = str ''B'' \<and> gas_consumption ?b = 2000 \<and>
        (\<forall>r' \<in> set [?a3]. \<not> (year r' = 2020 \<and>
            normalizeMunicipalityName (municipality r') = str ''B''))"
    by (simp add: exampleData_def norm)
  then have c2: "getConsumptionByYear exampleData 2020 (str ''B'') = Some 2000"
    unfolding getConsumptionByYear_last_wins by blast
  from c1 c2 show ?thesis ..
qed

section \<open>getConsumptionRange: the extrema\<close>

lemma range_step_finite:
  "range_step \<lparr>min_val = Num lo, max_val = Num hi\<rparr> r =
     \<lparr>min_val = Num (min lo (gas_consumption r)), max_val = Num (max hi (gas_consumption r))\<rparr>"
  by (simp add: range_step_def Let_def min_def max_def)

lemma range_step_initial:
  "range_step \<lparr>min_val = PosInf, max_val = NegInf\<rparr> r =
     \<lparr>min_val = Num (gas_consumption r), max_val = Num (gas_consumption r)\<rparr>"
  by (simp add: range_step_def Let_def)

lemma range_fold_finite:
  "foldl range_step \<lparr>min_val = Num lo, max_val = Num hi\<rparr> rs =
     \<lparr>min_val = Num (Min (insert lo (gas_consumption ` set rs))),
      max_val = Num (Max (insert hi (gas_consumption ` set rs)))\<rparr>"
proof (induction rs arbitrary: lo hi)
  case Nil
  show ?case by simp
next
  case (Cons r rs)
  have lo: "Min (insert (min lo (gas_consumption r)) (gas_consumption ` set rs)) =
            Min (insert lo (gas_consumption ` set (r # rs)))"
    by (cases "set rs = {}") (simp_all add: min.commute min.left_commute)
  have hi: "Max (insert (max hi (gas_consumption r)) (gas_consumption ` set rs)) =
            Max (insert hi (gas_consumption ` set (r # rs)))"
    by (cases "set rs = {}") (simp_all add: max.commute max.left_commute)
  show ?case
    by (simp only: foldl_Cons range_step_finite Cons.IH lo hi)
qed

lemma range_nonempty:
  assumes "data d \<noteq> []"
  shows "getConsumptionRange d =
           \<lparr>min_val = Num (Min (gas_consumption ` set (data d))),
            max_val = Num (Max (gas_consumption ` set (data d)))\<rparr>"
proof -
  from assms obtain r rs where d: "data d = r # rs"
    by (cases "data d") auto
  show ?thesis
    by (simp add: getConsumptionRange_def d range_step_initial range_fold_finite)
qed

text \<open>
  C7. For an empty dataset the result is \<open>{min: +Infinity, max: -Infinity}\<close>. For a
  non-empty dataset both bounds are finite, every record's consumption lies between
  them, and each bound is the consumption of some record.
\<close>

theorem getConsumptionRange_extrema:
  "(data d = [] \<longrightarrow> getConsumptionRange d = \<lparr>min_val = PosInf, max_val = NegInf\<rparr>) \<and>
   (data d \<noteq> [] \<longrightarrow>
      (\<exists>lo hi. getConsumptionRange d = \<lparr>min_val = Num lo, max_val = Num hi\<rparr> \<and>
         (\<forall>r \<in> set (data d). lo \<le> gas_consumption r \<and> gas_consumption r \<le> hi) \<and>
         (\<exists>r \<in> set (data d). gas_consumption r = lo) \<and>
         (\<exists>r \<in> set (data d). gas_consumption r = hi)))"
proof (intro conjI impI)
  assume "data d = []"
  then show "getConsumptionRange d = \<lparr>min_val = PosInf, max_val = NegInf\<rparr>"
    by (simp add: getConsumptionRange_def)
next
  assume ne: "data d \<noteq> []"
  let ?S = "gas_consumption ` set (data d)"
  have fin: "finite ?S" and nonempty: "?S \<noteq> {}"
    using ne by simp_all
  have "Min ?S \<in> ?S" and "Max ?S \<in> ?S"
    using fin nonempty by (rule Min_in, rule Max_in)
  then have att: "\<exists>r \<in> set (data d). gas_consumption r = Min ?S"
                 "\<exists>r \<in> set (data d). gas_consumption r = Max ?S"
    by auto
  have bnd: "\<forall>r \<in> set (data d). Min ?S \<le> gas_consumption r \<and> gas_consumption r \<le> Max ?S"
    using fin by simp
  show "\<exists>lo hi. getConsumptionRange d = \<lparr>min_val = Num lo, max_val = Num hi\<rparr> \<and>
         (\<forall>r \<in> set (data d). lo \<le> gas_consumption r \<and> gas_consumption r \<le> hi) \<and>
         (\<exists>r \<in> set (data d). gas_consumption r = lo) \<and>
         (\<exists>r \<in> set (data d). gas_consumption r = hi)"
    using range_nonempty [OF ne] att bnd by blast
qed

theorem getConsumptionRange_extrema_witness:
  "getConsumptionRange \<lparr>data = []\<rparr> = \<lparr>min_val = PosInf, max_val = NegInf\<rparr> \<and>
   (\<exists>lo hi. getConsumptionRange exampleData = \<lparr>min_val = Num lo, max_val = Num hi\<rparr> \<and>
      (\<forall>r \<in> set (data exampleData). lo \<le> gas_consumption r \<and> gas_consumption r \<le> hi) \<and>
      (\<exists>r \<in> set (data exampleData). gas_consumption r = lo) \<and>
      (\<exists>r \<in> set (data exampleData). gas_consumption r = hi))"
  using getConsumptionRange_extrema [of "\<lparr>data = []\<rparr>"]
        getConsumptionRange_extrema [of exampleData]
  by (simp add: exampleData_def)

section \<open>getColorForConsumption: gradient, extrapolation, degenerate range\<close>

subsection \<open>Exact and rounded arithmetic\<close>

lemma rsub_Num [simp]: "rsub Num a b = num_sub a b"
  by (cases a; cases b) simp_all

lemma rmul_Num [simp]: "rmul Num a b = num_mul a b"
  by (cases a; cases b) simp_all

lemma rdiv_Num [simp]: "rdiv Num a b = num_div a b"
  by (cases a; cases b) simp_all

lemma getColorForConsumption_rounded_exact:
  "getColorForConsumption_rounded Num v lo hi = getColorForConsumption v lo hi"
  by (cases v) (simp_all add: getColorForConsumption_rounded_def getColorForConsumption_def Let_def)

lemma isRounding_Num: "isRounding Num"
  by (simp add: isRounding_def)

lemma num_le_refl_iff: "num_le n n \<longleftrightarrow> n \<noteq> NaN"
  by (cases n) simp_all

lemma isRounding_mono: "isRounding fl \<Longrightarrow> x \<le> y \<Longrightarrow> num_le (fl x) (fl y)"
  by (simp add: isRounding_def)

lemma isRounding_int: "isRounding fl \<Longrightarrow> \<bar>k\<bar> \<le> 2 ^ 53 \<Longrightarrow> fl (of_int k) = Num (of_int k)"
  by (simp add: isRounding_def)

lemma isRounding_ge:
  assumes "isRounding fl" and "of_int k \<le> x" and "\<bar>k\<bar> \<le> 2 ^ 53"
  shows "num_le (Num (of_int k)) (fl x)"
  using isRounding_mono [OF assms(1,2)] isRounding_int [OF assms(1,3)] by simp

lemma isRounding_le:
  assumes "isRounding fl" and "x \<le> of_int k" and "\<bar>k\<bar> \<le> 2 ^ 53"
  shows "num_le (fl x) (Num (of_int k))"
  using isRounding_mono [OF assms(1,2)] isRounding_int [OF assms(1,3)] by simp

lemma num_le_between:
  "num_le (Num a) n \<Longrightarrow> num_le n (Num b) \<Longrightarrow> \<exists>x. n = Num x \<and> a \<le> x \<and> x \<le> b"
  by (cases n) simp_all

lemma num_le_below: "num_le n (Num b) \<Longrightarrow> n = NegInf \<or> (\<exists>x. n = Num x \<and> x \<le> b)"
  by (cases n) simp_all

lemma num_le_above: "num_le (Num a) n \<Longrightarrow> n = PosInf \<or> (\<exists>x. n = Num x \<and> a \<le> x)"
  by (cases n) simp_all

lemma isRounding_between:
  assumes "isRounding fl" and "of_int a \<le> x" and "x \<le> of_int b"
    and "\<bar>a\<bar> \<le> 2 ^ 53" and "\<bar>b\<bar> \<le> 2 ^ 53"
  shows "\<exists>y. fl x = Num y \<and> of_int a \<le> y \<and> y \<le> of_int b"
  using isRounding_ge [OF assms(1,2,4)] isRounding_le [OF assms(1,3,5)]
  by (rule num_le_between)

subsection \<open>The ratio and one channel\<close>

lemma round_between:
  fixes x :: real and a b :: int
  assumes "of_int a \<le> x" and "x \<le> of_int b"
  shows "a \<le> \<lfloor>x + 1 / 2\<rfloor> \<and> \<lfloor>x + 1 / 2\<rfloor> \<le> b"
proof
  show "a \<le> \<lfloor>x + 1 / 2\<rfloor>"
    using assms(1) by (simp add: le_floor_iff)
  have "x + 1 / 2 < of_int b + 1"
    using assms(2) by simp
  then show "\<lfloor>x + 1 / 2\<rfloor> \<le> b"
    by (simp add: floor_le_iff)
qed

lemma ratio_inside:
  assumes fl: "isRounding fl" and w: "fl (hi - lo) = Num w" "0 < w"
    and v: "lo \<le> v" "v \<le> hi"
  shows "\<exists>q. rdiv fl (rsub fl (Num v) (Num lo)) (rsub fl (Num hi) (Num lo)) = Num q \<and>
             0 \<le> q \<and> q \<le> 1 \<and> (v = lo \<longrightarrow> q = 0) \<and> (v = hi \<longrightarrow> q = 1)"
proof -
  have "num_le (Num (of_int 0)) (fl (v - lo))"
    using fl v(1) by (intro isRounding_ge) simp_all
  moreover have "num_le (fl (v - lo)) (Num w)"
    using isRounding_mono [OF fl, of "v - lo" "hi - lo"] v(2) w(1) by simp
  ultimately obtain d where d: "fl (v - lo) = Num d" "0 \<le> d" "d \<le> w"
    using num_le_between [of 0 "fl (v - lo)" w] by auto
  have "\<exists>q. fl (d / w) = Num q \<and> of_int 0 \<le> q \<and> q \<le> of_int 1"
    using fl d(2,3) w(2) by (intro isRounding_between) simp_all
  then obtain q where q: "fl (d / w) = Num q" "0 \<le> q" "q \<le> 1"
    by auto
  have zero: "fl 0 = Num 0" and one: "fl 1 = Num 1"
    using isRounding_int [OF fl, of 0] isRounding_int [OF fl, of 1] by simp_all
  have "q = 0" if "v = lo"
    using that d(1) q(1) zero by simp
  moreover have "q = 1" if "v = hi"
    using that d(1) q(1) w one by simp
  ultimately show ?thesis
    using d(1) w q by auto
qed

lemma ratio_below:
  assumes fl: "isRounding fl" and w: "fl (hi - lo) = Num w" "0 < w" and v: "v < lo"
  shows "num_le (rdiv fl (rsub fl (Num v) (Num lo)) (rsub fl (Num hi) (Num lo))) (Num 0)"
proof -
  have "num_le (fl (v - lo)) (Num (of_int 0))"
    using fl v by (intro isRounding_le) simp_all
  then consider "fl (v - lo) = NegInf" | d where "fl (v - lo) = Num d" "d \<le> 0"
    using num_le_below [of "fl (v - lo)" 0] by auto
  then show ?thesis
  proof cases
    case 1
    then show ?thesis using w by simp
  next
    case 2
    have "num_le (fl (d / w)) (Num (of_int 0))"
      using fl 2(2) w(2) by (intro isRounding_le) (simp_all add: divide_le_0_iff)
    then show ?thesis using 2(1) w by simp
  qed
qed

lemma ratio_above:
  assumes fl: "isRounding fl" and w: "fl (hi - lo) = Num w" "0 < w" and v: "hi < v"
  shows "num_le (Num 1) (rdiv fl (rsub fl (Num v) (Num lo)) (rsub fl (Num hi) (Num lo)))"
proof -
  have "num_le (Num w) (fl (v - lo))"
    using isRounding_mono [OF fl, of "hi - lo" "v - lo"] v w(1) by simp
  then consider "fl (v - lo) = PosInf" | d where "fl (v - lo) = Num d" "w \<le> d"
    using num_le_above [of w "fl (v - lo)"] by auto
  then show ?thesis
  proof cases
    case 1
    then show ?thesis using w by simp
  next
    case 2
    have "num_le (Num (of_int 1)) (fl (d / w))"
      using fl 2(2) w(2) by (intro isRounding_ge) simp_all
    then show ?thesis using 2(1) w by simp
  qed
qed

text \<open>One channel: \<open>Math.round(c - ratio * (c - c'))\<close> for integer constants
  \<open>0 \<le> c' \<le> c \<le> 255\<close>.\<close>

lemma channel_diff:
  assumes fl: "isRounding fl" and c: "0 \<le> c'" "c' \<le> c" "c \<le> 255"
  shows "fl (of_int c - of_int c') = Num (of_int c - of_int c')"
  using isRounding_int [OF fl, of "c - c'"] c by simp

lemma channel_inside:
  assumes fl: "isRounding fl" and c: "0 \<le> c'" "c' \<le> c" "c \<le> 255"
    and q: "0 \<le> q" "q \<le> 1"
  shows "\<exists>k. Math_round (rsub fl (Num (of_int c))
                 (rmul fl (Num q) (rsub fl (Num (of_int c)) (Num (of_int c'))))) = Num (of_int k) \<and>
             c' \<le> k \<and> k \<le> c \<and> (q = 0 \<longrightarrow> k = c) \<and> (q = 1 \<longrightarrow> k = c')"
proof -
  have "q * of_int (c - c') \<le> 1 * of_int (c - c')"
    using q(2) c(2) by (intro mult_right_mono) simp_all
  then have "\<exists>p. fl (q * of_int (c - c')) = Num p \<and> of_int 0 \<le> p \<and> p \<le> of_int (c - c')"
    using fl q(1) c by (intro isRounding_between) simp_all
  then obtain p where p: "fl (q * of_int (c - c')) = Num p" "0 \<le> p" "p \<le> of_int (c - c')"
    by auto
  have "\<exists>s. fl (of_int c - p) = Num s \<and> of_int c' \<le> s \<and> s \<le> of_int c"
    using fl p(2,3) c by (intro isRounding_between) simp_all
  then obtain s where s: "fl (of_int c - p) = Num s" "of_int c' \<le> s" "s \<le> of_int c"
    by auto
  have val: "Math_round (rsub fl (Num (of_int c))
                 (rmul fl (Num q) (rsub fl (Num (of_int c)) (Num (of_int c'))))) =
             Num (of_int \<lfloor>s + 1 / 2\<rfloor>)"
    using p(1) s(1) by (simp add: channel_diff [OF fl c])
  have bounds: "c' \<le> \<lfloor>s + 1 / 2\<rfloor> \<and> \<lfloor>s + 1 / 2\<rfloor> \<le> c"
    using s(2,3) by (rule round_between)
  have "\<lfloor>s + 1 / 2\<rfloor> = c" if "q = 0"
  proof -
    have "p = 0" using that p(1) isRounding_int [OF fl, of 0] by simp
    then have "s = of_int c" using s(1) isRounding_int [OF fl, of c] c by simp
    then show ?thesis by simp
  qed
  moreover have "\<lfloor>s + 1 / 2\<rfloor> = c'" if "q = 1"
  proof -
    have "p = of_int (c - c')" using that p(1) isRounding_int [OF fl, of "c - c'"] c by simp
    then have "s = of_int c'" using s(1) isRounding_int [OF fl, of c'] c by simp
    then show ?thesis by simp
  qed
  ultimately show ?thesis
    using val bounds by blast
qed

lemma Math_round_ge:
  "num_le (Num (of_int c)) n \<Longrightarrow> num_le (Num (of_int c)) (Math_round n)"
  by (cases n) (simp_all add: le_floor_iff)

lemma Math_round_le:
  "num_le n (Num (of_int c)) \<Longrightarrow> num_le (Math_round n) (Num (of_int c))"
  by (cases n) (simp_all add: floor_le_iff)

lemma channel_below:
  assumes fl: "isRounding fl" and c: "0 \<le> c'" "c' < c" "c \<le> 255"
    and q: "num_le ratio (Num 0)"
  shows "num_le (Num (of_int c)) (Math_round (rsub fl (Num (of_int c))
                 (rmul fl ratio (rsub fl (Num (of_int c)) (Num (of_int c'))))))"
proof -
  have diff: "fl (of_int c - of_int c') = Num (of_int c - of_int c')"
    using fl c by (intro channel_diff) simp_all
  from q consider "ratio = NegInf" | x where "ratio = Num x" "x \<le> 0"
    using num_le_below [of ratio 0] by auto
  then show ?thesis
  proof cases
    case 1
    then show ?thesis using c(2) by (simp add: diff)
  next
    case 2
    have "x * of_int (c - c') \<le> 0"
      using 2(2) c(2) by (simp add: mult_le_0_iff)
    then have "num_le (fl (x * of_int (c - c'))) (Num (of_int 0))"
      using fl by (intro isRounding_le) simp_all
    then consider "fl (x * of_int (c - c')) = NegInf"
      | p where "fl (x * of_int (c - c')) = Num p" "p \<le> 0"
      using num_le_below [of "fl (x * of_int (c - c'))" 0] by auto
    then show ?thesis
    proof cases
      case 1
      then show ?thesis using 2(1) by (simp add: diff)
    next
      case 2
      note pp = this
      have "num_le (Num (of_int c)) (fl (of_int c - p))"
        using fl pp(2) c by (intro isRounding_ge) simp_all
      then have "num_le (Num (of_int c)) (Math_round (fl (of_int c - p)))"
        by (rule Math_round_ge)
      then show ?thesis using \<open>ratio = Num x\<close> pp(1) by (simp add: diff)
    qed
  qed
qed

lemma channel_above:
  assumes fl: "isRounding fl" and c: "0 \<le> c'" "c' < c" "c \<le> 255"
    and q: "num_le (Num 1) ratio"
  shows "num_le (Math_round (rsub fl (Num (of_int c))
                 (rmul fl ratio (rsub fl (Num (of_int c)) (Num (of_int c')))))) (Num (of_int c'))"
proof -
  have diff: "fl (of_int c - of_int c') = Num (of_int c - of_int c')"
    using fl c by (intro channel_diff) simp_all
  from q consider "ratio = PosInf" | x where "ratio = Num x" "1 \<le> x"
    using num_le_above [of 1 ratio] by auto
  then show ?thesis
  proof cases
    case 1
    then show ?thesis using c(2) by (simp add: diff)
  next
    case 2
    have "1 * of_int (c - c') \<le> x * of_int (c - c')"
      using 2(2) c(2) by (intro mult_right_mono) simp_all
    then have "num_le (Num (of_int (c - c'))) (fl (x * of_int (c - c')))"
      using fl c by (intro isRounding_ge) simp_all
    then consider "fl (x * of_int (c - c')) = PosInf"
      | p where "fl (x * of_int (c - c')) = Num p" "of_int (c - c') \<le> p"
      using num_le_above [of "of_int (c - c')" "fl (x * of_int (c - c'))"] by auto
    then show ?thesis
    proof cases
      case 1
      then show ?thesis using 2(1) by (simp add: diff)
    next
      case 2
      note pp = this
      have "num_le (fl (of_int c - p)) (Num (of_int c'))"
        using fl pp(2) c by (intro isRounding_le) simp_all
      then have "num_le (Math_round (fl (of_int c - p))) (Num (of_int c'))"
        by (rule Math_round_le)
      then show ?thesis using \<open>ratio = Num x\<close> pp(1) by (simp add: diff)
    qed
  qed
qed

subsection \<open>The gradient\<close>

text \<open>
  C1 (as amended). The ratio is not clamped. Whatever the rounding of the arithmetic,
  for a range whose computed width \<open>max - min\<close> is a positive finite number (so that
  \<open>min < max\<close>): for a value inside the range the colour lies on the gradient, every
  channel being an integer between the two end colours; the light end
  \<open>rgb(254, 224, 210)\<close> is returned at \<open>min\<close> and the dark end \<open>rgb(165, 15, 21)\<close> at
  \<open>max\<close>; below the range the channels are at or beyond the light end, above it at or
  beyond the dark end.
\<close>

theorem getColorForConsumption_gradient:
  assumes "isRounding fl" and "fl (hi - lo) = Num w" and "0 < w"
  shows "\<exists>r g b. getColorForConsumption_rounded fl (Some (Num v)) (Num lo) (Num hi) = Rgb r g b \<and>
           (lo \<le> v \<and> v \<le> hi \<longrightarrow>
              (\<exists>i j k. r = Num (of_int i) \<and> g = Num (of_int j) \<and> b = Num (of_int k) \<and>
                 165 \<le> i \<and> i \<le> 254 \<and> 15 \<le> j \<and> j \<le> 224 \<and> 21 \<le> k \<and> k \<le> 210)) \<and>
           (v = lo \<longrightarrow> r = Num 254 \<and> g = Num 224 \<and> b = Num 210) \<and>
           (v = hi \<longrightarrow> r = Num 165 \<and> g = Num 15 \<and> b = Num 21) \<and>
           (v < lo \<longrightarrow> num_le (Num 254) r \<and> num_le (Num 224) g \<and> num_le (Num 210) b) \<and>
           (hi < v \<longrightarrow> num_le r (Num 165) \<and> num_le g (Num 15) \<and> num_le b (Num 21))"
proof -
  note fl = assms(1) and w = assms(2,3)
  define ratio where "ratio = rdiv fl (rsub fl (Num v) (Num lo)) (rsub fl (Num hi) (Num lo))"
  define chan where "chan c c' =
    Math_round (rsub fl (Num (of_int c)) (rmul fl ratio (rsub fl (Num (of_int c)) (Num (of_int c')))))"
    for c c' :: int
  have col: "getColorForConsumption_rounded fl (Some (Num v)) (Num lo) (Num hi) =
               Rgb (chan 254 165) (chan 224 15) (chan 210 21)"
    by (simp add: getColorForConsumption_rounded_def Let_def chan_def ratio_def)
  have inside: "\<exists>k. chan c c' = Num (of_int k) \<and> c' \<le> k \<and> k \<le> c \<and>
                     (v = lo \<longrightarrow> k = c) \<and> (v = hi \<longrightarrow> k = c')"
    if "lo \<le> v" "v \<le> hi" "0 \<le> c'" "c' \<le> c" "c \<le> 255" for c c'
  proof -
    from ratio_inside [OF fl w that(1,2)] obtain q
      where q: "ratio = Num q" "0 \<le> q" "q \<le> 1" "v = lo \<longrightarrow> q = 0" "v = hi \<longrightarrow> q = 1"
      unfolding ratio_def by blast
    from channel_inside [OF fl that(3,4,5) q(2,3)] q(1,4,5) show ?thesis
      unfolding chan_def by blast
  qed
  have within: "\<exists>i j k. chan 254 165 = Num (of_int i) \<and> chan 224 15 = Num (of_int j) \<and>
                   chan 210 21 = Num (of_int k) \<and>
                   165 \<le> i \<and> i \<le> 254 \<and> 15 \<le> j \<and> j \<le> 224 \<and> 21 \<le> k \<and> k \<le> 210"
    if "lo \<le> v" "v \<le> hi"
    using inside [OF that, of 165 254] inside [OF that, of 15 224] inside [OF that, of 21 210]
    by auto
  have lo_lt_hi: "lo < hi"
  proof (rule ccontr)
    assume "\<not> lo < hi"
    then have "num_le (fl (hi - lo)) (Num (of_int 0))"
      using fl by (intro isRounding_le) simp_all
    then show False using w by simp
  qed
  have light: "chan 254 165 = Num 254 \<and> chan 224 15 = Num 224 \<and> chan 210 21 = Num 210"
    if "v = lo"
    using inside [of 165 254] inside [of 15 224] inside [of 21 210] that lo_lt_hi
    by auto
  have dark: "chan 254 165 = Num 165 \<and> chan 224 15 = Num 15 \<and> chan 210 21 = Num 21"
    if "v = hi"
    using inside [of 165 254] inside [of 15 224] inside [of 21 210] that lo_lt_hi
    by auto
  have below: "num_le (Num 254) (chan 254 165) \<and> num_le (Num 224) (chan 224 15) \<and>
               num_le (Num 210) (chan 210 21)"
    if "v < lo"
  proof -
    have q: "num_le ratio (Num 0)"
      unfolding ratio_def using fl w that by (rule ratio_below)
    show ?thesis
      using channel_below [OF fl _ _ _ q, of 165 254] channel_below [OF fl _ _ _ q, of 15 224]
            channel_below [OF fl _ _ _ q, of 21 210]
      by (simp add: chan_def)
  qed
  have above: "num_le (chan 254 165) (Num 165) \<and> num_le (chan 224 15) (Num 15) \<and>
               num_le (chan 210 21) (Num 21)"
    if "hi < v"
  proof -
    have q: "num_le (Num 1) ratio"
      unfolding ratio_def using fl w that by (rule ratio_above)
    show ?thesis
      using channel_above [OF fl _ _ _ q, of 165 254] channel_above [OF fl _ _ _ q, of 15 224]
            channel_above [OF fl _ _ _ q, of 21 210]
      by (simp add: chan_def)
  qed
  from col within light dark below above show ?thesis
    by blast
qed

theorem getColorForConsumption_gradient_witness:
  "isRounding Num \<and> Num (200 - 100) = Num 100 \<and> (0::real) < 100 \<and>
   (\<exists>i j k. getColorForConsumption_rounded Num (Some (Num 150)) (Num 100) (Num 200) =
                Rgb (Num (of_int i)) (Num (of_int j)) (Num (of_int k)) \<and>
              165 \<le> i \<and> i \<le> 254 \<and> 15 \<le> j \<and> j \<le> 224 \<and> 21 \<le> k \<and> k \<le> 210) \<and>
   getColorForConsumption_rounded Num (Some (Num 150)) (Num 100) (Num 200) =
     Rgb (Num 210) (Num 120) (Num 116) \<and>
   getColorForConsumption_rounded Num (Some (Num 100)) (Num 100) (Num 200) =
     Rgb (Num 254) (Num 224) (Num 210) \<and>
   getColorForConsumption_rounded Num (Some (Num 200)) (Num 100) (Num 200) =
     Rgb (Num 165) (Num 15) (Num 21)"
proof -
  have val: "getColorForConsumption_rounded Num (Some (Num 150)) (Num 100) (Num 200) =
               Rgb (Num 210) (Num 120) (Num 116)"
    by (simp add: getColorForConsumption_rounded_def Let_def)
  have hyps: "isRounding Num" "Num (200 - 100) = Num 100" "(0::real) < 100"
    by (simp_all add: isRounding_Num)
  from getColorForConsumption_gradient [OF hyps, of 150]
  have mid: "\<exists>i j k. getColorForConsumption_rounded Num (Some (Num 150)) (Num 100) (Num 200) =
                Rgb (Num (of_int i)) (Num (of_int j)) (Num (of_int k)) \<and>
              165 \<le> i \<and> i \<le> 254 \<and> 15 \<le> j \<and> j \<le> 224 \<and> 21 \<le> k \<and> k \<le> 210"
    by auto
  from getColorForConsumption_gradient [OF hyps, of 100]
  have light: "getColorForConsumption_rounded Num (Some (Num 100)) (Num 100) (Num 200) =
     Rgb (Num 254) (Num 224) (Num 210)"
    by auto
  from getColorForConsumption_gradient [OF hyps, of 200]
  have dark: "getColorForConsumption_rounded Num (Some (Num 200)) (Num 100) (Num 200) =
     Rgb (Num 165) (Num 15) (Num 21)"
    by auto
  from hyps val mid light dark show ?thesis
    by blast
qed

text \<open>
  C1 as stated fails: the ratio is not clamped. For the value 0 in the range
  \<open>[100, 200]\<close> the ratio is \<open>-1\<close> and the result is \<open>rgb(343, 433, 399)\<close>, which is not
  the colour returned at the minimum.
\<close>

theorem getColorForConsumption_extrapolates:
  "getColorForConsumption (Some (Num 0)) (Num 100) (Num 200) = Rgb (Num 343) (Num 433) (Num 399) \<and>
   getColorForConsumption (Some (Num 100)) (Num 100) (Num 200) = Rgb (Num 254) (Num 224) (Num 210) \<and>
   getColorForConsumption (Some (Num 0)) (Num 100) (Num 200) \<noteq>
     getColorForConsumption (Some (Num 100)) (Num 100) (Num 200)"
  by (simp add: getColorForConsumption_def Let_def)

text \<open>
  Every intermediate result at this input is an integer, so the result is the same under
  every rounding.
\<close>

lemma getColorForConsumption_rounded_unclamped:
  assumes "isRounding fl"
  shows "getColorForConsumption_rounded fl (Some (Num 0)) (Num 100) (Num 200) =
           Rgb (Num 343) (Num 433) (Num 399)"
proof -
  have int: "fl (of_int k) = Num (of_int k)" if "\<bar>k\<bar> \<le> 1000" for k
    using isRounding_int [OF assms, of k] that by simp
  have exact: "fl (- 100) = Num (- 100)" "fl 100 = Num 100" "fl (- 1) = Num (- 1)"
    "fl 89 = Num 89" "fl 209 = Num 209" "fl 189 = Num 189"
    "fl (- 89) = Num (- 89)" "fl (- 209) = Num (- 209)" "fl (- 189) = Num (- 189)"
    "fl 343 = Num 343" "fl 433 = Num 433" "fl 399 = Num 399"
    using int [of "- 100"] int [of 100] int [of "- 1"] int [of 89] int [of 209] int [of 189]
      int [of "- 89"] int [of "- 209"] int [of "- 189"] int [of 343] int [of 433] int [of 399]
    by simp_all
  show ?thesis
    by (simp add: getColorForConsumption_rounded_def Let_def exact)
qed

text \<open>
  C3. With \<open>max = min\<close> the ratio is a division by zero: the channels are NaN when the
  value equals the bound, and infinite otherwise. No call with a degenerate range returns
  integer channels.
\<close>

theorem getColorForConsumption_degenerate:
  "getColorForConsumption (Some (Num v)) (Num m) (Num m) =
     (if v = m then Rgb NaN NaN NaN
      else if m < v then Rgb NegInf NegInf NegInf
      else Rgb PosInf PosInf PosInf)"
  by (simp add: getColorForConsumption_def Let_def)

theorem getColorForConsumption_degenerate_witness:
  "getColorForConsumption (Some (Num 100)) (Num 100) (Num 100) = Rgb NaN NaN NaN \<and>
   getColorForConsumption (Some (Num 150)) (Num 100) (Num 100) = Rgb NegInf NegInf NegInf \<and>
   getColorForConsumption (Some (Num 50)) (Num 100) (Num 100) = Rgb PosInf PosInf PosInf"
  using getColorForConsumption_degenerate [of 100 100]
        getColorForConsumption_degenerate [of 150 100]
        getColorForConsumption_degenerate [of 50 100]
  by simp

text \<open>
  The same holds with rounded arithmetic, for every rounding under which the difference
  of two different numbers is not zero (as it is for doubles).
\<close>

lemma getColorForConsumption_rounded_degenerate:
  assumes fl: "isRounding fl" and nz: "v \<noteq> m \<Longrightarrow> fl (v - m) \<noteq> Num 0"
  shows "getColorForConsumption_rounded fl (Some (Num v)) (Num m) (Num m) =
           getColorForConsumption (Some (Num v)) (Num m) (Num m)"
proof -
  have zero: "fl 0 = Num 0"
    using isRounding_int [OF fl, of 0] by simp
  have c: "fl 89 = Num 89" "fl 209 = Num 209" "fl 189 = Num 189"
    using isRounding_int [OF fl, of 89] isRounding_int [OF fl, of 209]
          isRounding_int [OF fl, of 189] by simp_all
  consider "v = m" | "m < v" | "v < m"
    by linarith
  then show ?thesis
  proof cases
    case 1
    then show ?thesis
      by (simp add: getColorForConsumption_rounded_def getColorForConsumption_def Let_def zero)
  next
    case 2
    then have "num_le (Num (of_int 0)) (fl (v - m))"
      using fl by (intro isRounding_ge) simp_all
    then consider "fl (v - m) = PosInf" | d where "fl (v - m) = Num d" "0 < d"
      using num_le_above [of 0 "fl (v - m)"] nz 2 by (auto simp: less_le)
    then show ?thesis
      using 2
      by cases
         (simp_all add: getColorForConsumption_rounded_def getColorForConsumption_def Let_def zero c)
  next
    case 3
    then have "num_le (fl (v - m)) (Num (of_int 0))"
      using fl by (intro isRounding_le) simp_all
    then consider "fl (v - m) = NegInf" | d where "fl (v - m) = Num d" "d < 0"
      using num_le_below [of "fl (v - m)" 0] nz 3 by (auto simp: less_le)
    then show ?thesis
      using 3
      by cases
         (simp_all add: getColorForConsumption_rounded_def getColorForConsumption_def Let_def zero c)
  qed
qed


section \<open>National averages: rounded means by year\<close>

lemma totals_step_lookup:
  "map_of (totals_step acc r) y =
     (if year r = y
      then (case map_of acc y of
              None \<Rightarrow> Some (gas_consumption r, 1)
            | Some (s, c) \<Rightarrow> Some (s + gas_consumption r, c + 1))
      else map_of acc y)"
  by (auto simp: totals_step_def update_conv split: option.split)

lemma totals_step_distinct:
  "distinct (map fst acc) \<Longrightarrow> distinct (map fst (totals_step acc r))"
  by (auto simp: totals_step_def distinct_update split: option.split)

lemma totals_fold_distinct:
  "distinct (map fst acc) \<Longrightarrow> distinct (map fst (foldl totals_step acc rs))"
  by (induction rs arbitrary: acc) (simp_all add: totals_step_distinct)

lemma totals_fold_lookup:
  "map_of (foldl totals_step acc rs) y =
     (let g = map gas_consumption (filter (\<lambda>r. year r = y) rs)
      in case map_of acc y of
           None \<Rightarrow> if g = [] then None else Some (sum_list g, length g)
         | Some (s, c) \<Rightarrow> Some (s + sum_list g, c + length g))"
proof (induction rs arbitrary: acc)
  case Nil
  show ?case by (simp split: option.split)
next
  case (Cons r rs)
  show ?case
    by (simp add: Cons.IH totals_step_lookup Let_def split: option.split)
qed

lemma totals_lookup:
  "map_of (foldl totals_step [] (data d)) y =
     (if y \<in> year ` set (data d)
      then Some (sum_list (yearGroup d y), length (yearGroup d y)) else None)"
proof -
  have "yearGroup d y = [] \<longleftrightarrow> y \<notin> year ` set (data d)"
    by (auto simp: yearGroup_def filter_empty_conv)
  then show ?thesis
    by (auto simp: totals_fold_lookup yearGroup_def Let_def)
qed

lemma Object_entries_mset: "mset (Object_entries obj) = mset obj"
  by (simp add: Object_entries_def)

lemma sorted_by_key_unique:
  fixes f :: "'a \<Rightarrow> 'k::linorder"
  assumes "sorted (map f xs)" "distinct (map f xs)"
      and "sorted (map f ys)" "distinct (map f ys)"
      and "set xs = set ys"
  shows "xs = ys"
proof -
  have "set (map f xs) = set (map f ys)"
    using assms(5) by simp
  then have "map f xs = map f ys"
    using assms(1-4) by (intro sorted_distinct_set_unique)
  moreover have "inj_on f (set xs \<union> set ys)"
    using assms(2,5) by (simp add: distinct_map)
  ultimately show ?thesis
    by (simp add: inj_on_map_eq_map)
qed

lemma calculateNationalAverages_spec:
  "calculateNationalAverages d = nationalAveragesSpec d"
proof -
  let ?T = "foldl totals_step [] (data d)"
  let ?Y = "year ` set (data d)"
  let ?f = "\<lambda>(y, (s, c)). \<lparr>ya_year = y, average = Math_round (num_div (Num s) (Num (of_nat c)))\<rparr>"
  let ?h = "\<lambda>y. \<lparr>ya_year = y, average = Num (of_int \<lfloor>mean (yearGroup d y) + 1 / 2\<rfloor>)\<rparr>"
  let ?xs = "calculateNationalAverages d"
  let ?ys = "nationalAveragesSpec d"
  have dT: "distinct (map fst ?T)"
    by (rule totals_fold_distinct) simp
  have memT: "(y, sc) \<in> set ?T \<longleftrightarrow>
                y \<in> ?Y \<and> sc = (sum_list (yearGroup d y), length (yearGroup d y))" for y sc
    using map_of_eq_Some_iff [OF dT, of y sc] by (auto simp: totals_lookup split: if_splits)
  have fh: "?f p = ?h (fst p)" if "p \<in> set ?T" for p
  proof -
    obtain y s c where p: "p = (y, (s, c))" by (cases p) auto
    from that have y: "y \<in> ?Y" and s: "s = sum_list (yearGroup d y)"
        and c: "c = length (yearGroup d y)"
      by (simp_all add: p memT)
    from y have "yearGroup d y \<noteq> []"
      by (auto simp: yearGroup_def filter_empty_conv)
    then have "c \<noteq> 0" by (simp add: c)
    then show ?thesis
      by (simp add: p s c mean_def)
  qed
  have keys: "map ya_year (map ?f (Object_entries ?T)) = map fst (Object_entries ?T)"
    by (auto simp: case_prod_beta)
  have msx: "mset (map ya_year ?xs) = mset (map fst ?T)"
  proof -
    have "mset (map ya_year ?xs) = image_mset ya_year (mset (map ?f (Object_entries ?T)))"
      by (simp add: calculateNationalAverages_def)
    also have "\<dots> = mset (map fst (Object_entries ?T))"
      using keys by (metis mset_map)
    also have "\<dots> = mset (map fst ?T)"
      by (simp add: Object_entries_mset)
    finally show ?thesis .
  qed
  have x1: "sorted (map ya_year ?xs)"
    by (simp add: calculateNationalAverages_def sorted_sort_key)
  have x2: "distinct (map ya_year ?xs)"
    using msx dT by (metis mset_eq_imp_distinct_iff)
  have y0: "map ya_year ?ys = sorted_list_of_set ?Y"
    by (simp add: nationalAveragesSpec_def comp_def)
  have y1: "sorted (map ya_year ?ys)" and y2: "distinct (map ya_year ?ys)"
    by (simp_all add: y0)
  have setE: "set (Object_entries ?T) = set ?T"
    by (metis Object_entries_mset set_mset_mset)
  have "set ?xs = ?f ` set ?T"
    by (simp add: calculateNationalAverages_def setE)
  also have "\<dots> = (\<lambda>p. ?h (fst p)) ` set ?T"
    using fh by (intro image_cong) auto
  also have "\<dots> = ?h ` fst ` set ?T"
    by (simp add: image_image)
  also have "fst ` set ?T = ?Y"
    using memT by force
  also have "?h ` ?Y = set ?ys"
    by (simp add: nationalAveragesSpec_def)
  finally have "set ?xs = set ?ys" .
  with x1 x2 y1 y2 show ?thesis
    by (rule sorted_by_key_unique)
qed

lemma Math_round_nearest: "\<bar>of_int \<lfloor>x + 1 / 2\<rfloor> - x\<bar> \<le> (1 / 2 :: real)"
  by linarith

lemma groups_step_lookup:
  "map_of (groups_step acc r) y =
     (if year r = y
      then (case map_of acc y of
              None \<Rightarrow> Some [gas_consumption r]
            | Some vs \<Rightarrow> Some (vs @ [gas_consumption r]))
      else map_of acc y)"
  by (auto simp: groups_step_def update_conv split: option.split)

lemma groups_fold_distinct:
  "distinct (map fst acc) \<Longrightarrow> distinct (map fst (foldl groups_step acc rs))"
proof (induction rs arbitrary: acc)
  case Nil
  then show ?case by simp
next
  case (Cons r rs)
  have "distinct (map fst (groups_step acc r))"
    using Cons.prems by (auto simp: groups_step_def distinct_update split: option.split)
  then show ?case
    by (simp add: Cons.IH)
qed

lemma groups_fold_lookup:
  "map_of (foldl groups_step acc rs) y =
     (let g = map gas_consumption (filter (\<lambda>r. year r = y) rs)
      in case map_of acc y of
           None \<Rightarrow> if g = [] then None else Some g
         | Some vs \<Rightarrow> Some (vs @ g))"
proof (induction rs arbitrary: acc)
  case Nil
  show ?case by (simp split: option.split)
next
  case (Cons r rs)
  show ?case
    by (simp add: Cons.IH groups_step_lookup Let_def split: option.split)
qed

lemma groups_lookup:
  "map_of (foldl groups_step [] (data d)) y =
     (if y \<in> year ` set (data d) then Some (yearGroup d y) else None)"
proof -
  have "yearGroup d y = [] \<longleftrightarrow> y \<notin> year ` set (data d)"
    by (auto simp: yearGroup_def filter_empty_conv)
  then show ?thesis
    by (auto simp: groups_fold_lookup yearGroup_def Let_def)
qed

lemma foldl_plus_sum_list: "foldl (+) a xs = a + sum_list (xs :: real list)"
  by (induction xs arbitrary: a) simp_all

lemma averages_fold_lookup:
  "distinct (map fst kvs) \<Longrightarrow>
   foldl averages_step m kvs y =
     (case map_of kvs y of
        None \<Rightarrow> m y
      | Some vs \<Rightarrow> Some (roundedMean vs))"
proof (induction kvs arbitrary: m)
  case Nil
  show ?case by simp
next
  case (Cons p kvs)
  obtain k vs where p: "p = (k, vs)" by (cases p) auto
  from Cons.prems have k: "map_of kvs k = None" and d: "distinct (map fst kvs)"
    by (simp_all add: p map_of_eq_None_iff)
  have step: "averages_step m (k, vs) = m(k \<mapsto> roundedMean vs)"
    by (simp add: averages_step_def)
  show ?case
    using k by (simp add: p Cons.IH [OF d] step split: option.split)
qed

lemma Object_entries_map_of:
  assumes "distinct (map fst obj)"
  shows "map_of (Object_entries obj) = map_of obj"
proof -
  have "mset (map fst (Object_entries obj)) = mset (map fst obj)"
    by (simp add: Object_entries_mset)
  then have "distinct (map fst (Object_entries obj))"
    using assms by (metis mset_eq_imp_distinct_iff)
  moreover have "set (Object_entries obj) = set obj"
    by (metis Object_entries_mset set_mset_mset)
  ultimately show ?thesis
    using assms by (simp add: map_of_inject_set)
qed

lemma nationalAverages_lookup:
  "nationalAverages d y =
     (if y \<in> year ` set (data d)
      then Some (Num (of_int \<lfloor>mean (yearGroup d y) + 1 / 2\<rfloor>)) else None)"
proof -
  let ?G = "foldl groups_step [] (data d)"
  have dG: "distinct (map fst ?G)"
    by (rule groups_fold_distinct) simp
  have dE: "distinct (map fst (Object_entries ?G))"
    by (metis Object_entries_mset dG mset_eq_imp_distinct_iff mset_map)
  have look: "map_of (Object_entries ?G) y =
                (if y \<in> year ` set (data d) then Some (yearGroup d y) else None)"
    by (simp add: Object_entries_map_of [OF dG] groups_lookup)
  show ?thesis
  proof (cases "y \<in> year ` set (data d)")
    case False
    then show ?thesis
      by (simp add: nationalAverages_def averages_fold_lookup [OF dE] look)
  next
    case True
    then have "yearGroup d y \<noteq> []"
      by (auto simp: yearGroup_def filter_empty_conv)
    with True show ?thesis
      by (simp add: nationalAverages_def averages_fold_lookup [OF dE] look
            roundedMean_def foldl_plus_sum_list mean_def)
  qed
qed

text \<open>
  C5. The national averages are one entry per distinct year, in ascending order of the
  year; the average of a year is an integer within one half of the arithmetic mean of
  that year's consumption values (the mean plus one half, rounded down); on the example
  dataset the average of 2020 is 1500. The dictionary of the municipality page holds the
  same average for every year of the dataset, and no other key.
\<close>

theorem calculateNationalAverages_grouped_mean:
  "calculateNationalAverages d = nationalAveragesSpec d \<and>
   map ya_year (calculateNationalAverages d) = sorted_list_of_set (year ` set (data d)) \<and>
   (\<forall>e \<in> set (calculateNationalAverages d). \<exists>k :: int.
      average e = Num (of_int k) \<and> \<bar>of_int k - mean (yearGroup d (ya_year e))\<bar> \<le> 1 / 2) \<and>
   calculateNationalAverages exampleData =
     [\<lparr>ya_year = 2020, average = Num 1500\<rparr>, \<lparr>ya_year = 2021, average = Num 1100\<rparr>] \<and>
   dom (nationalAverages d) = year ` set (data d) \<and>
   (\<forall>e \<in> set (calculateNationalAverages d). nationalAverages d (ya_year e) = Some (average e))"
proof (intro conjI)
  show "dom (nationalAverages d) = year ` set (data d)"
    by (auto simp: nationalAverages_lookup dom_def)
  show "\<forall>e \<in> set (calculateNationalAverages d). nationalAverages d (ya_year e) = Some (average e)"
    by (auto simp: calculateNationalAverages_spec nationalAveragesSpec_def nationalAverages_lookup)
  show "calculateNationalAverages d = nationalAveragesSpec d"
    by (rule calculateNationalAverages_spec)
  show "map ya_year (calculateNationalAverages d) = sorted_list_of_set (year ` set (data d))"
    by (simp add: calculateNationalAverages_spec nationalAveragesSpec_def comp_def)
  show "\<forall>e \<in> set (calculateNationalAverages d). \<exists>k :: int.
      average e = Num (of_int k) \<and> \<bar>of_int k - mean (yearGroup d (ya_year e))\<bar> \<le> 1 / 2"
    using Math_round_nearest
    by (auto simp: calculateNationalAverages_spec nationalAveragesSpec_def)
  show "calculateNationalAverages exampleData =
     [\<lparr>ya_year = 2020, average = Num 1500\<rparr>, \<lparr>ya_year = 2021, average = Num 1100\<rparr>]"
    by (simp add: calculateNationalAverages_def exampleData_def totals_step_def
          Object_entries_def isArrayIndex_def)
qed

theorem calculateNationalAverages_grouped_mean_witness:
  "map ya_year (calculateNationalAverages exampleData) = [2020, 2021] \<and>
   map average (calculateNationalAverages exampleData) = [Num 1500, Num 1100] \<and>
   mean (yearGroup exampleData 2020) = 1500"
proof -
  have m: "mean (yearGroup exampleData 2020) = 1500"
    by (simp add: mean_def yearGroup_def exampleData_def)
  from calculateNationalAverages_grouped_mean [of exampleData]
  have "calculateNationalAverages exampleData =
     [\<lparr>ya_year = 2020, average = Num 1500\<rparr>, \<lparr>ya_year = 2021, average = Num 1100\<rparr>]"
    by blast
  with m show ?thesis
    by simp
qed

section \<open>Rankings per year: positions in the sorted year\<close>

lemma rank_fold_upds:
  "length yd = length ixs \<Longrightarrow>
   foldl (rank_step n) m (zip yd ixs) = m(map rankedName yd [\<mapsto>] map (rankingAt n) ixs)"
proof (induction yd arbitrary: ixs m)
  case Nil
  then show ?case by simp
next
  case (Cons r yd)
  then obtain i ixs' where ixs: "ixs = i # ixs'" and len: "length yd = length ixs'"
    by (cases ixs) auto
  have step: "rank_step n m (r, i) = m(rankedName r \<mapsto> rankingAt n i)"
    by (simp add: rank_step_def rankedName_def rankingAt_def)
  have "foldl (rank_step n) m (zip (r # yd) ixs) =
        foldl (rank_step n) (rank_step n m (r, i)) (zip yd ixs')"
    by (simp add: ixs)
  also have "\<dots> = (rank_step n m (r, i))(map rankedName yd [\<mapsto>] map (rankingAt n) ixs')"
    by (rule Cons.IH [OF len])
  also have "\<dots> = m(map rankedName (r # yd) [\<mapsto>] map (rankingAt n) ixs)"
    by (simp only: step ixs list.map map_upds_Cons)
  finally show ?case .
qed

lemma rankYear_upds:
  "rankYear yd =
     Map.empty(map rankedName yd [\<mapsto>] map (rankingAt (length yd)) [0..<length yd])"
  by (simp add: rankYear_def rank_fold_upds)

lemma map_of_rev_distinct:
  "distinct (map fst al) \<Longrightarrow> map_of (rev al) = map_of al"
proof (induction al)
  case Nil
  show ?case by simp
next
  case (Cons p al)
  obtain k v where p: "p = (k, v)" by (cases p) auto
  from Cons.prems have "k \<notin> fst ` set al" and "distinct (map fst al)"
    by (simp_all add: p)
  then have none: "map_of al k = None" and IH: "map_of (rev al) = map_of al"
    using Cons.IH by (simp_all add: map_of_eq_None_iff)
  show ?case
  proof
    fix x
    show "map_of (rev (p # al)) x = map_of (p # al) x"
      using none by (simp add: p IH map_add_def split: option.split)
  qed
qed

lemma upds_distinct:
  assumes "distinct ks" and "length ks = length vs"
  shows "Map.empty(ks [\<mapsto>] vs) = map_of (zip ks vs)"
proof -
  have "distinct (map fst (zip ks vs))"
    using assms by simp
  then show ?thesis
    by (simp add: map_upds_def map_of_rev_distinct)
qed

lemma upds_value:
  "(m(ks [\<mapsto>] vs)) k = Some v \<Longrightarrow> v \<in> set vs \<or> m k = Some v"
proof (induction ks arbitrary: vs m)
  case Nil
  then show ?case by simp
next
  case (Cons a ks)
  show ?case
  proof (cases vs)
    case Nil
    with Cons.prems show ?thesis by simp
  next
    case (Cons b vs')
    with Cons.prems have "((m(a \<mapsto> b))(ks [\<mapsto>] vs')) k = Some v"
      by (simp only: map_upds_Cons)
    then have "v \<in> set vs' \<or> (m(a \<mapsto> b)) k = Some v"
      by (rule Cons.IH)
    then show ?thesis
      by (cases "k = a") (auto simp: Cons)
  qed
qed

lemma fold_upd_lookup:
  "foldl (\<lambda>m k. m(k \<mapsto> f k)) m0 ks k' = (if k' \<in> set ks then Some (f k') else m0 k')"
  by (induction ks arbitrary: m0) auto

lemma rankingsPerYear_lookup:
  "rankingsPerYear d y =
     (if y \<in> year ` set (data d) then Some (rankYear (yearData d y)) else None)"
  by (simp add: rankingsPerYear_def fold_upd_lookup newSet_def set_newSet)

lemma yearData_length:
  "length (yearData d y) = length (filter (\<lambda>r. year r = y) (data d))"
  by (simp add: yearData_def)

lemma yearData_names_distinct:
  "distinct (map rankedName (yearData d y)) \<longleftrightarrow>
   distinct (map rankedName (filter (\<lambda>r. year r = y) (data d)))"
proof -
  have "mset (map rankedName (yearData d y)) =
        mset (map rankedName (filter (\<lambda>r. year r = y) (data d)))"
    by (simp add: yearData_def)
  then show ?thesis
    by (rule mset_eq_imp_distinct_iff)
qed

lemma rankYear_general:
  "dom (rankYear yd) = rankedName ` set yd \<and>
   (\<forall>v \<in> ran (rankYear yd). total_count v = length yd)"
proof
  show "dom (rankYear yd) = rankedName ` set yd"
    by (simp add: rankYear_upds dom_map_upds)
  show "\<forall>v \<in> ran (rankYear yd). total_count v = length yd"
  proof
    fix v assume "v \<in> ran (rankYear yd)"
    then obtain k where "rankYear yd k = Some v"
      by (auto simp: ran_def)
    then have "v \<in> set (map (rankingAt (length yd)) [0..<length yd])"
      using upds_value [of Map.empty] by (fastforce simp: rankYear_upds)
    then show "total_count v = length yd"
      by (auto simp: rankingAt_def)
  qed
qed

lemma rankYear_distinct:
  assumes "distinct (map rankedName yd)"
  shows "(\<forall>i < length yd. rankYear yd (rankedName (yd ! i)) =
            Some \<lparr>rank = i + 1, total_count = length yd\<rparr>) \<and>
         rank ` ran (rankYear yd) = {1..length yd}"
proof -
  let ?ks = "map rankedName yd"
  let ?vs = "map (rankingAt (length yd)) [0..<length yd]"
  have len: "length ?ks = length ?vs" by simp
  have eq: "rankYear yd = map_of (zip ?ks ?vs)"
    unfolding rankYear_upds using assms len by (rule upds_distinct)
  have "rankYear yd (rankedName (yd ! i)) = Some \<lparr>rank = i + 1, total_count = length yd\<rparr>"
    if "i < length yd" for i
  proof -
    have "map_of (zip ?ks ?vs) (?ks ! i) = Some (?vs ! i)"
      using len assms that by (intro map_of_zip_nth) simp_all
    with that show ?thesis
      by (simp add: eq rankingAt_def)
  qed
  moreover have "rank ` ran (rankYear yd) = {1..length yd}"
  proof -
    have "ran (rankYear yd) = set ?vs"
      unfolding eq using len assms by (rule ran_map_of_zip)
    then have "rank ` ran (rankYear yd) = (\<lambda>i. i + 1) ` {0..<length yd}"
      by (simp add: image_image rankingAt_def)
    also have "\<dots> = {1..length yd}"
      by (auto simp: image_iff)
    finally show ?thesis .
  qed
  ultimately show ?thesis by blast
qed

subsection \<open>The map view\<close>

lemma byYearObject_fold_map_of:
  "map_of (foldl (byYearObject_step y) al rs) = foldl (byYear_step y) (map_of al) rs"
proof (induction rs arbitrary: al)
  case Nil
  show ?case by simp
next
  case (Cons r rs)
  have "map_of (byYearObject_step y al r) = byYear_step y (map_of al) r"
    by (simp add: byYearObject_step_def byYear_step_def update_conv')
  then show ?case
    by (simp add: Cons.IH)
qed

lemma byYearObject_map_of: "map_of (byYearObject d y) = getConsumptionByYear d y"
  by (simp add: byYearObject_def getConsumptionByYear_def byYearObject_fold_map_of)

lemma byYearObject_fold_distinct:
  "distinct (map fst al) \<Longrightarrow> distinct (map fst (foldl (byYearObject_step y) al rs))"
proof (induction rs arbitrary: al)
  case Nil
  then show ?case by simp
next
  case (Cons r rs)
  have "distinct (map fst (byYearObject_step y al r))"
    using Cons.prems by (simp add: byYearObject_step_def distinct_update)
  then show ?case
    by (simp add: Cons.IH)
qed

lemma byYearObject_distinct: "distinct (map fst (byYearObject d y))"
  by (simp add: byYearObject_def byYearObject_fold_distinct)

lemma update_new_key:
  "k \<notin> fst ` set al \<Longrightarrow> AList.update k v al = al @ [(k, v)]"
  by (induction al) auto

lemma byYearObject_fold_fresh:
  assumes "distinct (map rankedName (filter (\<lambda>r. year r = y) rs))"
    and "rankedName ` set (filter (\<lambda>r. year r = y) rs) \<inter> fst ` set al = {}"
  shows "foldl (byYearObject_step y) al rs = al @ map nameAndValue (filter (\<lambda>r. year r = y) rs)"
  using assms
proof (induction rs arbitrary: al)
  case Nil
  show ?case by simp
next
  case (Cons r rs)
  show ?case
  proof (cases "year r = y")
    case False
    then have "byYearObject_step y al r = al"
      by (simp add: byYearObject_step_def)
    with Cons False show ?thesis by simp
  next
    case True
    from Cons.prems True have new: "rankedName r \<notin> fst ` set al"
      and dis: "distinct (map rankedName (filter (\<lambda>r. year r = y) rs))"
      and notin: "rankedName r \<notin> rankedName ` set (filter (\<lambda>r. year r = y) rs)"
      and disj: "rankedName ` set (filter (\<lambda>r. year r = y) rs) \<inter> fst ` set al = {}"
      by auto
    have step: "byYearObject_step y al r = al @ [nameAndValue r]"
      using True new
      by (simp add: byYearObject_step_def nameAndValue_def rankedName_def update_new_key)
    have "rankedName ` set (filter (\<lambda>r. year r = y) rs) \<inter> fst ` set (al @ [nameAndValue r]) = {}"
      using disj notin by (auto simp: nameAndValue_def)
    from Cons.IH [OF dis this] step True show ?thesis
      by simp
  qed
qed

lemma byYearObject_fresh:
  assumes "distinct (map rankedName (filter (\<lambda>r. year r = y) (data d)))"
  shows "byYearObject d y = map nameAndValue (filter (\<lambda>r. year r = y) (data d))"
  using byYearObject_fold_fresh [OF assms, of "[]"] by (simp add: byYearObject_def)

lemma Object_entries_str_mset: "mset (Object_entries_str obj) = mset obj"
  by (simp add: Object_entries_str_def)

lemma Object_entries_str_plain:
  "\<forall>p \<in> set obj. \<not> isArrayIndexKey (fst p) \<Longrightarrow> Object_entries_str obj = obj"
  by (simp add: Object_entries_str_def)

lemma insort_key_map_comm:
  "insort_key f (g x) (map g xs) = map g (insort_key (\<lambda>a. f (g a)) x xs)"
  by (induction xs) simp_all

lemma sort_key_map_comm:
  "sort_key f (map g xs) = map g (sort_key (\<lambda>a. f (g a)) xs)"
  by (induction xs) (simp_all add: insort_key_map_comm)

lemma sort_key_map_nameAndValue:
  "sort_key snd (map nameAndValue rs) = map nameAndValue (sort_key gas_consumption rs)"
  by (simp add: sort_key_map_comm nameAndValue_def)

lemma rankMap_fold_upds:
  "length es = length ixs \<Longrightarrow>
   foldl rankMap_step m (zip es ixs) = m(map fst es [\<mapsto>] map Suc ixs)"
proof (induction es arbitrary: ixs m)
  case Nil
  then show ?case by simp
next
  case (Cons e es)
  then obtain i ixs' where ixs: "ixs = i # ixs'" and len: "length es = length ixs'"
    by (cases ixs) auto
  have step: "rankMap_step m (e, i) = m(fst e \<mapsto> Suc i)"
    by (cases e) (simp add: rankMap_step_def)
  have "foldl rankMap_step m (zip (e # es) ixs) =
        foldl rankMap_step (rankMap_step m (e, i)) (zip es ixs')"
    by (simp add: ixs)
  also have "\<dots> = (rankMap_step m (e, i))(map fst es [\<mapsto>] map Suc ixs')"
    by (rule Cons.IH [OF len])
  also have "\<dots> = m(map fst (e # es) [\<mapsto>] map Suc ixs)"
    by (simp only: step ixs list.map map_upds_Cons)
  finally show ?case .
qed

lemma rankMap_distinct:
  assumes "distinct (map fst es)"
  shows "(\<forall>i < length es.
            foldl rankMap_step Map.empty (zip es [0..<length es]) (fst (es ! i)) = Some (i + 1)) \<and>
         ran (foldl rankMap_step Map.empty (zip es [0..<length es])) = {1..length es} \<and>
         dom (foldl rankMap_step Map.empty (zip es [0..<length es])) = fst ` set es"
proof -
  let ?m = "foldl rankMap_step Map.empty (zip es [0..<length es])"
  let ?ks = "map fst es"
  let ?vs = "map Suc [0..<length es]"
  have len: "length ?ks = length ?vs" by simp
  have "?m = Map.empty(?ks [\<mapsto>] ?vs)"
    by (simp add: rankMap_fold_upds)
  also have "\<dots> = map_of (zip ?ks ?vs)"
    using assms len by (rule upds_distinct)
  finally have eq: "?m = map_of (zip ?ks ?vs)" .
  have "?m (fst (es ! i)) = Some (i + 1)" if "i < length es" for i
  proof -
    have "map_of (zip ?ks ?vs) (?ks ! i) = Some (?vs ! i)"
      using len assms that by (intro map_of_zip_nth) simp_all
    with that show ?thesis
      by (simp add: eq)
  qed
  moreover have "ran ?m = {1..length es}"
  proof -
    have "ran ?m = set ?vs"
      unfolding eq using len assms by (rule ran_map_of_zip)
    also have "\<dots> = {1..length es}"
      by (auto simp: image_iff)
    finally show ?thesis .
  qed
  moreover have "dom ?m = fst ` set es"
    unfolding eq using len by (simp add: dom_map_of_zip)
  ultimately show ?thesis by blast
qed

lemma sortedEntries_props:
  "mset (sortedEntries d y) = mset (byYearObject d y) \<and>
   sorted (map snd (sortedEntries d y)) \<and>
   distinct (map fst (sortedEntries d y))"
proof -
  have m: "mset (sortedEntries d y) = mset (byYearObject d y)"
    by (simp add: sortedEntries_def Object_entries_str_mset)
  then have "mset (map fst (sortedEntries d y)) = mset (map fst (byYearObject d y))"
    by (metis mset_map)
  then have "distinct (map fst (sortedEntries d y)) \<longleftrightarrow> distinct (map fst (byYearObject d y))"
    by (rule mset_eq_imp_distinct_iff)
  then have "distinct (map fst (sortedEntries d y))"
    by (simp add: byYearObject_distinct)
  moreover have "sorted (map snd (sortedEntries d y))"
    by (simp add: sortedEntries_def)
  ultimately show ?thesis
    using m by blast
qed

text \<open>The records behind a list of entries.\<close>

lemma entries_records:
  assumes dis: "distinct (map rankedName xs)"
    and es: "mset es = mset (map nameAndValue xs)"
    and srt: "sorted (map snd es)"
  shows "\<exists>ys. mset ys = mset xs \<and> sorted (map gas_consumption ys) \<and> map nameAndValue ys = es"
proof -
  define g where "g p = the (List.find (\<lambda>r. rankedName r = fst p) xs)" for p :: "jsstring \<times> real"
  have inv: "g (nameAndValue r) = r" if "r \<in> set xs" for r
  proof -
    from that obtain r' where f: "List.find (\<lambda>a. rankedName a = rankedName r) xs = Some r'"
      by (cases "List.find (\<lambda>a. rankedName a = rankedName r) xs") (auto simp: find_None_iff)
    then have "r' \<in> set xs" "rankedName r' = rankedName r"
      by (auto simp: find_Some_iff)
    with that dis have "r' = r"
      by (meson distinct_map inj_on_def)
    with f show ?thesis
      by (simp add: g_def nameAndValue_def)
  qed
  have "mset (map g es) = image_mset g (mset es)"
    by simp
  also have "\<dots> = image_mset g (image_mset nameAndValue (mset xs))"
    by (simp add: es)
  also have "\<dots> = image_mset (\<lambda>r. g (nameAndValue r)) (mset xs)"
    by (simp add: multiset.map_comp comp_def)
  also have "\<dots> = image_mset (\<lambda>r. r) (mset xs)"
    by (rule image_mset_cong) (simp add: inv)
  finally have perm: "mset (map g es) = mset xs"
    by simp
  have "set es = nameAndValue ` set xs"
    using es by (metis mset_eq_setD set_map)
  then have rt: "nameAndValue (g p) = p" if "p \<in> set es" for p
    using that inv by auto
  have ents: "map nameAndValue (map g es) = es"
    using rt by (simp add: map_idI)
  have "map gas_consumption (map g es) = map snd (map nameAndValue (map g es))"
    by (simp add: nameAndValue_def comp_def)
  then have "sorted (map gas_consumption (map g es))"
    using srt by (simp only: ents)
  with perm ents show ?thesis
    by blast
qed

lemma rankings_entries:
  "rankMap (rankings d y) =
     foldl rankMap_step Map.empty (zip (sortedEntries d y) [0..<length (sortedEntries d y)]) \<and>
   rankings_total (rankings d y) = length (sortedEntries d y)"
  by (simp add: rankings_def Let_def)

lemma rankings_distinct_names:
  assumes dis: "distinct (map rankedName (filter (\<lambda>r. year r = y) (data d)))"
  shows "rankings_total (rankings d y) = length (filter (\<lambda>r. year r = y) (data d)) \<and>
         ran (rankMap (rankings d y)) = {1..length (filter (\<lambda>r. year r = y) (data d))} \<and>
         dom (rankMap (rankings d y)) = rankedName ` {r \<in> set (data d). year r = y} \<and>
         (\<exists>ys. mset ys = mset (filter (\<lambda>r. year r = y) (data d)) \<and>
               sorted (map gas_consumption ys) \<and>
               (\<forall>i < length (filter (\<lambda>r. year r = y) (data d)).
                   rankMap (rankings d y) (rankedName (ys ! i)) = Some (i + 1)))"
proof -
  let ?xs = "filter (\<lambda>r. year r = y) (data d)"
  let ?es = "sortedEntries d y"
  have obj: "byYearObject d y = map nameAndValue ?xs"
    using dis by (rule byYearObject_fresh)
  have es: "mset ?es = mset (map nameAndValue ?xs)" "sorted (map snd ?es)" "distinct (map fst ?es)"
    using sortedEntries_props [of d y] by (simp_all add: obj)
  have len: "length ?es = length ?xs"
    using es(1) by (metis length_map mset_eq_length)
  from entries_records [OF dis es(1,2)] obtain ys
    where ys: "mset ys = mset ?xs" "sorted (map gas_consumption ys)" "map nameAndValue ys = ?es"
    by blast
  have names: "fst (?es ! i) = rankedName (ys ! i)" if "i < length ?xs" for i
  proof -
    have "i < length ys"
      using that ys(1) by (metis mset_eq_length)
    then have "?es ! i = nameAndValue (ys ! i)"
      using ys(3) by (metis nth_map)
    then show ?thesis
      by (simp add: nameAndValue_def)
  qed
  have "set ?es = nameAndValue ` set ?xs"
    using es(1) by (metis mset_eq_setD set_map)
  then have keys: "fst ` set ?es = rankedName ` {r \<in> set (data d). year r = y}"
    by (auto simp: nameAndValue_def image_iff)
  note rm = rankMap_distinct [OF es(3)]
  have "rankings_total (rankings d y) = length ?xs"
    by (simp add: rankings_entries len)
  moreover have "ran (rankMap (rankings d y)) = {1..length ?xs}"
    using rm by (simp add: rankings_entries len)
  moreover have "dom (rankMap (rankings d y)) = rankedName ` {r \<in> set (data d). year r = y}"
    using rm by (simp add: rankings_entries keys)
  moreover have "\<forall>i < length ?xs. rankMap (rankings d y) (rankedName (ys ! i)) = Some (i + 1)"
    using rm names by (simp add: rankings_entries len)
  ultimately show ?thesis
    using ys(1,2) by blast
qed

lemma rankings_stable:
  assumes dis: "distinct (map rankedName (filter (\<lambda>r. year r = y) (data d)))"
    and ord: "(\<forall>r \<in> set (data d). year r = y \<longrightarrow> \<not> isArrayIndexKey (rankedName r)) \<or>
              distinct (map gas_consumption (filter (\<lambda>r. year r = y) (data d)))"
    and i: "i < length (filter (\<lambda>r. year r = y) (data d))"
  shows "rankMap (rankings d y)
           (rankedName (sort_key gas_consumption (filter (\<lambda>r. year r = y) (data d)) ! i)) =
         Some (i + 1)"
proof -
  let ?xs = "filter (\<lambda>r. year r = y) (data d)"
  from rankings_distinct_names [OF dis] obtain ys
    where ys: "mset ys = mset ?xs" "sorted (map gas_consumption ys)"
      "\<forall>i < length ?xs. rankMap (rankings d y) (rankedName (ys ! i)) = Some (i + 1)"
    by blast
  show ?thesis
  proof (cases "distinct (map gas_consumption ?xs)")
    case True
    have "mset (map gas_consumption ys) = mset (map gas_consumption ?xs)"
      using ys(1) by (metis mset_map)
    then have "distinct (map gas_consumption ys)"
      using True by (metis mset_eq_imp_distinct_iff)
    moreover have "distinct (map gas_consumption (sort_key gas_consumption ?xs))"
      using True by (metis distinct_map distinct_sort set_sort distinct_map)
    moreover have "set ys = set (sort_key gas_consumption ?xs)"
      using ys(1) by (metis mset_eq_setD set_sort)
    ultimately have "ys = sort_key gas_consumption ?xs"
      using ys(2) by (intro sorted_by_key_unique [of gas_consumption]) simp_all
    with ys(3) i show ?thesis
      by simp
  next
    case False
    with ord have plain: "\<forall>r \<in> set (data d). year r = y \<longrightarrow> \<not> isArrayIndexKey (rankedName r)"
      by blast
    have obj: "byYearObject d y = map nameAndValue ?xs"
      using dis by (rule byYearObject_fresh)
    have "Object_entries_str (byYearObject d y) = byYearObject d y"
      using plain by (intro Object_entries_str_plain) (auto simp: obj nameAndValue_def)
    then have es: "sortedEntries d y = map nameAndValue (sort_key gas_consumption ?xs)"
      by (simp add: sortedEntries_def obj sort_key_map_nameAndValue)
    have dist: "distinct (map fst (sortedEntries d y))"
      using sortedEntries_props [of d y] by blast
    have "rankMap (rankings d y) (fst (sortedEntries d y ! i)) = Some (i + 1)"
      using rankMap_distinct [OF dist] i by (simp add: rankings_entries es)
    then show ?thesis
      using i by (simp add: es nameAndValue_def)
  qed
qed

subsection \<open>Both rankings\<close>

text \<open>
  C4 (as amended). For a year \<open>y\<close> of the dataset in which the normalized names of the
  records are pairwise distinct, with \<open>N\<close> the number of records of that year. In the
  ranking of the municipality page (\<open>rankingsPerYear\<close>) the name of the record at
  position \<open>i\<close> (counted from 1) of the year's records sorted ascending by consumption
  has rank \<open>i\<close>, the stored ranks are exactly \<open>1..N\<close>, and every stored total is \<open>N\<close>.
  In the ranking of the map view (\<open>rankings\<close>) the names ranked are those of the year's
  records, the rank of a name is the position of its record in a list of the year's
  records sorted ascending by consumption, which is the stably sorted list when no name
  is an array index or no two consumptions are equal, the ranks are exactly \<open>1..N\<close>, and
  the total is \<open>N\<close>.
\<close>

theorem rankings_positions:
  assumes "y \<in> year ` set (data d)"
    and "distinct (map rankedName (filter (\<lambda>r. year r = y) (data d)))"
  shows "(\<exists>m. rankingsPerYear d y = Some m \<and>
       dom m = rankedName ` {r \<in> set (data d). year r = y} \<and>
       (\<forall>i < length (filter (\<lambda>r. year r = y) (data d)).
           m (rankedName (sort_key gas_consumption (filter (\<lambda>r. year r = y) (data d)) ! i)) =
             Some \<lparr>rank = i + 1, total_count = length (filter (\<lambda>r. year r = y) (data d))\<rparr>) \<and>
       rank ` ran m = {1..length (filter (\<lambda>r. year r = y) (data d))} \<and>
       (\<forall>v \<in> ran m. total_count v = length (filter (\<lambda>r. year r = y) (data d)))) \<and>
     dom (rankMap (rankings d y)) = rankedName ` {r \<in> set (data d). year r = y} \<and>
     (\<exists>ys. mset ys = mset (filter (\<lambda>r. year r = y) (data d)) \<and>
           sorted (map gas_consumption ys) \<and>
           (\<forall>i < length (filter (\<lambda>r. year r = y) (data d)).
               rankMap (rankings d y) (rankedName (ys ! i)) = Some (i + 1))) \<and>
     ((\<forall>r \<in> set (data d). year r = y \<longrightarrow> \<not> isArrayIndexKey (rankedName r)) \<or>
      distinct (map gas_consumption (filter (\<lambda>r. year r = y) (data d))) \<longrightarrow>
        (\<forall>i < length (filter (\<lambda>r. year r = y) (data d)).
            rankMap (rankings d y)
              (rankedName (sort_key gas_consumption (filter (\<lambda>r. year r = y) (data d)) ! i)) =
            Some (i + 1))) \<and>
     ran (rankMap (rankings d y)) = {1..length (filter (\<lambda>r. year r = y) (data d))} \<and>
     rankings_total (rankings d y) = length (filter (\<lambda>r. year r = y) (data d))"
proof -
  let ?xs = "filter (\<lambda>r. year r = y) (data d)"
  let ?yd = "yearData d y"
  have m: "rankingsPerYear d y = Some (rankYear ?yd)"
    using assms(1) by (simp add: rankingsPerYear_lookup)
  have set_yd: "set ?yd = {r \<in> set (data d). year r = y}"
    by (auto simp: yearData_def)
  have dom: "dom (rankYear ?yd) = rankedName ` {r \<in> set (data d). year r = y}"
    using rankYear_general [of ?yd] by (simp add: set_yd)
  have tot: "\<forall>v \<in> ran (rankYear ?yd). total_count v = length ?xs"
    using rankYear_general [of ?yd] by (simp add: yearData_length)
  have "distinct (map rankedName ?yd)"
    using assms(2) by (simp add: yearData_names_distinct)
  from rankYear_distinct [OF this]
  have pos: "\<forall>i < length ?xs. rankYear ?yd (rankedName (sort_key gas_consumption ?xs ! i)) =
               Some \<lparr>rank = i + 1, total_count = length ?xs\<rparr>"
    and all: "rank ` ran (rankYear ?yd) = {1..length ?xs}"
    by (simp_all add: yearData_length) (simp add: yearData_def)
  have page: "\<exists>m. rankingsPerYear d y = Some m \<and>
       dom m = rankedName ` {r \<in> set (data d). year r = y} \<and>
       (\<forall>i < length ?xs. m (rankedName (sort_key gas_consumption ?xs ! i)) =
             Some \<lparr>rank = i + 1, total_count = length ?xs\<rparr>) \<and>
       rank ` ran m = {1..length ?xs} \<and>
       (\<forall>v \<in> ran m. total_count v = length ?xs)"
    using m dom pos all tot by blast
  have stable: "(\<forall>r \<in> set (data d). year r = y \<longrightarrow> \<not> isArrayIndexKey (rankedName r)) \<or>
      distinct (map gas_consumption ?xs) \<longrightarrow>
        (\<forall>i < length ?xs.
            rankMap (rankings d y) (rankedName (sort_key gas_consumption ?xs ! i)) = Some (i + 1))"
    using rankings_stable [OF assms(2)] by blast
  from page rankings_distinct_names [OF assms(2)] stable show ?thesis
    by blast
qed

theorem rankings_positions_witness:
  "2020 \<in> year ` set (data exampleData) \<and>
   distinct (map rankedName (filter (\<lambda>r. year r = 2020) (data exampleData))) \<and>
   (\<exists>m. rankingsPerYear exampleData 2020 = Some m \<and>
       m (str ''A'') = Some \<lparr>rank = 1, total_count = 2\<rparr> \<and>
       m (str ''B'') = Some \<lparr>rank = 2, total_count = 2\<rparr> \<and>
       rank ` ran m = {1..2}) \<and>
   rankMap (rankings exampleData 2020) (str ''A'') = Some 1 \<and>
   rankMap (rankings exampleData 2020) (str ''B'') = Some 2 \<and>
   ran (rankMap (rankings exampleData 2020)) = {1..2} \<and>
   rankings_total (rankings exampleData 2020) = 2"
proof -
  let ?a = "\<lparr>municipality = str ''A'', year = 2020, gas_consumption = 1000\<rparr>"
  let ?b = "\<lparr>municipality = str ''B'', year = 2020, gas_consumption = 2000\<rparr>"
  have norm: "rankedName ?a = str ''A''" "rankedName ?b = str ''B''"
    by (simp_all add: rankedName_def normalizeMunicipalityName_def stripSuffixes_def
          suffixes_def str_def trim_def isWhiteSpace_def)
  have flt: "filter (\<lambda>r. year r = 2020) (data exampleData) = [?a, ?b]"
    by (simp add: exampleData_def)
  have srt: "sort_key gas_consumption [?a, ?b] = [?a, ?b]"
    by simp
  have y: "2020 \<in> year ` set (data exampleData)"
    by (simp add: exampleData_def)
  have dis: "distinct (map rankedName (filter (\<lambda>r. year r = 2020) (data exampleData)))"
    by (simp add: flt norm) (simp add: str_def)
  have ties: "distinct (map gas_consumption (filter (\<lambda>r. year r = 2020) (data exampleData)))"
    by (simp add: flt)
  note rk = rankings_positions [OF y dis, unfolded flt srt]
  from rk obtain m where
      m: "rankingsPerYear exampleData 2020 = Some m"
      and ranks: "\<forall>i < 2. m (rankedName ([?a, ?b] ! i)) = Some \<lparr>rank = i + 1, total_count = 2\<rparr>"
      and all: "rank ` ran m = {1..2}"
    by auto
  have "m (rankedName ([?a, ?b] ! 0)) = Some \<lparr>rank = 0 + 1, total_count = 2\<rparr>"
      and "m (rankedName ([?a, ?b] ! 1)) = Some \<lparr>rank = 1 + 1, total_count = 2\<rparr>"
    using ranks [rule_format, of 0] ranks [rule_format, of 1] by simp_all
  then have page: "m (str ''A'') = Some \<lparr>rank = 1, total_count = 2\<rparr>"
      "m (str ''B'') = Some \<lparr>rank = 2, total_count = 2\<rparr>"
    by (simp_all add: norm)
  from rk ties [unfolded flt]
  have mp: "\<forall>i < 2. rankMap (rankings exampleData 2020) (rankedName ([?a, ?b] ! i)) = Some (i + 1)"
    and rn: "ran (rankMap (rankings exampleData 2020)) = {1..2}"
    and tt: "rankings_total (rankings exampleData 2020) = 2"
    by simp_all
  have "rankMap (rankings exampleData 2020) (rankedName ([?a, ?b] ! 0)) = Some (0 + 1)"
      and "rankMap (rankings exampleData 2020) (rankedName ([?a, ?b] ! 1)) = Some (1 + 1)"
    using mp [rule_format, of 0] mp [rule_format, of 1] by simp_all
  then have view: "rankMap (rankings exampleData 2020) (str ''A'') = Some 1"
      "rankMap (rankings exampleData 2020) (str ''B'') = Some 2"
    by (simp_all add: norm)
  from y dis m page all view rn tt show ?thesis
    by blast
qed

text \<open>
  C4 as stated fails when two records of a year normalize to the same name: the later
  assignment overwrites the earlier one. In \<open>collidingData\<close> the year 2020 has two records,
  both named \<open>A\<close> after normalization. On the municipality page the only entry is \<open>A\<close>
  with rank 2, although the record at the first position of the sorted list is named
  \<open>A\<close>, and rank 1 is not stored at all. In the map view the dictionary has the single
  key \<open>A\<close>, so the ranks stop at 1 and the total is 1, not 2.
\<close>

theorem rankingsPerYear_collision:
  "rankingsPerYear collidingData 2020 = Some [str ''A'' \<mapsto> \<lparr>rank = 2, total_count = 2\<rparr>] \<and>
   rankMap (rankings collidingData 2020) = [str ''A'' \<mapsto> 1] \<and>
   rankings_total (rankings collidingData 2020) = 1 \<and>
   length (filter (\<lambda>r. year r = 2020) (data collidingData)) = 2 \<and>
   sort_key gas_consumption (filter (\<lambda>r. year r = 2020) (data collidingData)) =
     [\<lparr>municipality = str ''A'', year = 2020, gas_consumption = 1000\<rparr>,
      \<lparr>municipality = str ''A (gemeente)'', year = 2020, gas_consumption = 2000\<rparr>] \<and>
   normalizeMunicipalityName (str ''A'') = str ''A'' \<and>
   normalizeMunicipalityName (str ''A (gemeente)'') = str ''A''"
proof -
  have norm: "normalizeMunicipalityName (str ''A (gemeente)'') = str ''A''"
             "normalizeMunicipalityName (str ''A'') = str ''A''"
    by (simp_all add: normalizeMunicipalityName_def stripSuffixes_def suffixes_def str_def
          trim_def isWhiteSpace_def)
  have upt: "[0..<2] = [0, 1]"
    by (simp add: upt_rec)
  have page: "rankingsPerYear collidingData 2020 =
                Some [str ''A'' \<mapsto> \<lparr>rank = 2, total_count = 2\<rparr>]"
    by (simp add: rankingsPerYear_lookup rankYear_def yearData_def collidingData_def
          rank_step_def norm upt)
       (simp add: numeral_2_eq_2)
  have obj: "byYearObject collidingData 2020 = [(str ''A'', 2000)]"
    by (simp add: byYearObject_def byYearObject_step_def collidingData_def norm)
  have key: "\<not> isArrayIndexKey (str ''A'')"
    by (simp add: isArrayIndexKey_def str_def isDigit_def)
  have ents: "sortedEntries collidingData 2020 = [(str ''A'', 2000)]"
    by (simp add: sortedEntries_def obj Object_entries_str_def key)
  have view: "rankMap (rankings collidingData 2020) = [str ''A'' \<mapsto> 1]"
    "rankings_total (rankings collidingData 2020) = 1"
    by (simp_all add: rankings_def ents rankMap_step_def)
  have recs: "length (filter (\<lambda>r. year r = 2020) (data collidingData)) = 2"
    "sort_key gas_consumption (filter (\<lambda>r. year r = 2020) (data collidingData)) =
     [\<lparr>municipality = str ''A'', year = 2020, gas_consumption = 1000\<rparr>,
      \<lparr>municipality = str ''A (gemeente)'', year = 2020, gas_consumption = 2000\<rparr>]"
    by (simp_all add: collidingData_def)
  from page view recs norm show ?thesis
    by blast
qed

section \<open>Year-over-year change\<close>


lemma percentChange_exact:
  "previous \<noteq> 0 \<Longrightarrow>
   percentChange Num current previous = Num ((current - previous) / previous * 100)"
  by (simp add: percentChange_def)









end
